theory Spec2Isabelle
  imports Main "HOL-Library.Word"
begin

section \<open>Strings\<close>

text \<open>
  A Python \<open>str\<close> is a sequence of Unicode code points, so a string is a list of natural
  numbers, one per code point; \<open>len\<close> is \<open>length\<close>. \<open>bytes\<close> are lists of octets.
\<close>

type_synonym codepoint = nat
type_synonym str = "codepoint list"
type_synonym bytes = "8 word list"

definition ascii :: "string \<Rightarrow> str" where
  "ascii s = map of_char s"

text \<open>The separators the source names: \<open>" "\<close>, \<open>"-"\<close>, \<open>"/"\<close>, \<open>"."\<close> and the digit \<open>"0"\<close>.\<close>

definition SPACE :: codepoint where "SPACE = 32"
definition HYPHEN :: codepoint where "HYPHEN = 45"
definition SLASH :: codepoint where "SLASH = 47"
definition DOT :: codepoint where "DOT = 46"
definition ZERO :: codepoint where "ZERO = 48"
definition PLUS :: codepoint where "PLUS = 43"

text \<open>\<open>str.split(sep)\<close> with a one-character separator: every occurrence splits, and
  empty pieces are kept (\<open>"".split("-") == [""]\<close>, \<open>"a--b".split("-") == ["a", "", "b"]\<close>).\<close>

fun split :: "codepoint \<Rightarrow> str \<Rightarrow> str list" where
  "split sep [] = [[]]"
| "split sep (c # cs) =
     (if c = sep then [] # split sep cs
      else (case split sep cs of [] \<Rightarrow> [[c]] | w # ws \<Rightarrow> (c # w) # ws))"

text \<open>\<open>sep.join(words)\<close>.\<close>

fun join :: "codepoint \<Rightarrow> str list \<Rightarrow> str" where
  "join sep [] = []"
| "join sep [w] = w"
| "join sep (w # ws) = w @ sep # join sep ws"

text \<open>\<open>string.replace(" ", "-")\<close>, a replacement of one character by one character.\<close>

definition replace :: "codepoint \<Rightarrow> codepoint \<Rightarrow> str \<Rightarrow> str" where
  "replace old new s = map (\<lambda>c. if c = old then new else c) s"

text \<open>\<open>str(n)\<close> for a non-negative integer: its decimal digits.\<close>

fun str_nat :: "nat \<Rightarrow> str" where
  "str_nat n = (if n < 10 then [ZERO + n] else str_nat (n div 10) @ [ZERO + n mod 10])"

declare str_nat.simps [simp del]

text \<open>\<open>s.zfill(width)\<close>: zeros on the left up to \<open>width\<close>, after a leading sign if there
  is one; a string that is long enough is returned as it is.\<close>

definition zfill :: "nat \<Rightarrow> str \<Rightarrow> str" where
  "zfill width s =
     (if width \<le> length s then s
      else (case s of
              [] \<Rightarrow> replicate width ZERO
            | c # cs \<Rightarrow>
                if c = PLUS \<or> c = HYPHEN then c # replicate (width - length s) ZERO @ cs
                else replicate (width - length s) ZERO @ s))"

section \<open>What the source takes from outside\<close>

text \<open>
  The module \<open>constants\<close> is not among the sources, and \<open>str.isalnum\<close> and \<open>str.lower\<close>
  are CPython built-ins that consult the Unicode character database. Both are parameters
  of the model: \<open>INDENT\<close> and \<open>TEMPORARY_EXTENSION\<close> are the two constants the modelled
  functions read, \<open>isalnum\<close> is the per-character test and \<open>lower\<close> the string-level
  lowercasing (which may lengthen a string).
\<close>

record runtime =
  INDENT :: str
  TEMPORARY_EXTENSION :: str
  isalnum :: "codepoint \<Rightarrow> bool"
  lower :: "str \<Rightarrow> str"

text \<open>
  An excerpt of CPython's tables. It gives CPython's answers on the code points below 128
  and on the two code points U+0130 (LATIN CAPITAL LETTER I WITH DOT ABOVE, alphanumeric,
  lowercased to the two code points U+0069 U+0307) and U+0307 (COMBINING DOT ABOVE, not
  alphanumeric, fixed by lowercasing), and on strings made of these. It does not hold the
  rest of the Unicode character database: on any other code point it says ``not
  alphanumeric, without case'', which is not what CPython says of a letter or digit beyond
  ASCII. The general statements below are about an arbitrary runtime; the excerpt is only
  evaluated on strings of code points it is exact on.
\<close>

definition ascii_isalnum :: "codepoint \<Rightarrow> bool" where
  "ascii_isalnum c \<longleftrightarrow> (48 \<le> c \<and> c \<le> 57) \<or> (65 \<le> c \<and> c \<le> 90) \<or> (97 \<le> c \<and> c \<le> 122)"

definition ascii_lower :: "codepoint \<Rightarrow> codepoint" where
  "ascii_lower c = (if 65 \<le> c \<and> c \<le> 90 then c + 32 else c)"

definition excerpt_isalnum :: "codepoint \<Rightarrow> bool" where
  "excerpt_isalnum c \<longleftrightarrow> ascii_isalnum c \<or> c = 304"

definition excerpt_lower :: "str \<Rightarrow> str" where
  "excerpt_lower s = concat (map (\<lambda>c. if c = 304 then [105, 775] else [ascii_lower c]) s)"

definition cpython_excerpt :: runtime where
  "cpython_excerpt = \<lparr>INDENT = ascii ''  '', TEMPORARY_EXTENSION = ascii ''tmp'',
                      isalnum = excerpt_isalnum, lower = excerpt_lower\<rparr>"

text \<open>A runtime agrees with CPython on ASCII when its two tables do.\<close>

definition ascii_tables :: "runtime \<Rightarrow> bool" where
  "ascii_tables K \<longleftrightarrow>
     (\<forall>c. c < 128 \<longrightarrow> isalnum K c = ascii_isalnum c) \<and>
     (\<forall>s. (\<forall>c \<in> set s. c < 128) \<longrightarrow> lower K s = map ascii_lower s)"

section \<open>Configuration\<close>

text \<open>The keys of the \<open>config\<close> dictionary that the modelled functions read.\<close>

record config =
  output_directory :: str
  nice_format :: bool
  full_structure :: bool
  skip_metadata :: bool
  quiet :: bool

section \<open>sanitize\<close>

definition sanitize :: "runtime \<Rightarrow> config \<Rightarrow> str \<Rightarrow> str" where
  "sanitize K cfg string =
     (if \<not> nice_format cfg then filter (\<lambda>c. c \<noteq> SLASH) string
      else
        let alphanumeric = filter (\<lambda>c. isalnum K c \<or> c = SPACE \<or> c = HYPHEN) string;
            hyphenated = replace SPACE HYPHEN alphanumeric
        in lower K (join HYPHEN (filter (\<lambda>word. word \<noteq> []) (split HYPHEN hyphenated))))"


section \<open>Paths\<close>

text \<open>\<open>os.path.join\<close>, \<open>os.path.basename\<close> and \<open>os.path.dirname\<close> as \<open>posixpath\<close>
  defines them: a component that starts with the separator restarts the path, and a
  separator is inserted only after a non-empty path that does not already end in one.\<close>

definition startswith_sep :: "str \<Rightarrow> bool" where
  "startswith_sep b = (case b of [] \<Rightarrow> False | c # _ \<Rightarrow> c = SLASH)"

definition endswith_sep :: "str \<Rightarrow> bool" where
  "endswith_sep path = (case rev path of [] \<Rightarrow> False | c # _ \<Rightarrow> c = SLASH)"

definition join_component :: "str \<Rightarrow> str \<Rightarrow> str" where
  "join_component path b =
     (if startswith_sep b then b
      else if path = [] \<or> endswith_sep path then path @ b
      else path @ SLASH # b)"

definition path_join :: "str \<Rightarrow> str list \<Rightarrow> str" where
  "path_join a p = foldl join_component a p"

definition basename :: "str \<Rightarrow> str" where
  "basename p = rev (takeWhile (\<lambda>c. c \<noteq> SLASH) (rev p))"

definition dirname :: "str \<Rightarrow> str" where
  "dirname p =
     (let head = rev (dropWhile (\<lambda>c. c \<noteq> SLASH) (rev p))
      in if head \<noteq> [] \<and> (\<exists>c \<in> set head. c \<noteq> SLASH)
         then rev (dropWhile (\<lambda>c. c = SLASH) (rev head)) else head)"

section \<open>Entities\<close>

text \<open>
  The module \<open>models\<close> is not among the sources. The records hold the attributes the
  modelled functions read. Modelled from the spec: its data model gives the disc number
  and the track number as 1-based counts, so they are natural numbers here, and an
  album's cover locator as optional.
\<close>

record artist =
  artist_name :: str

record album =
  album_name :: str
  album_artists :: "artist list"
  cover_url :: "str option"

record track =
  track_name :: str
  disc_number :: nat
  track_number :: nat
  extension :: str
  track_album :: album
  track_artists :: "artist list"

section \<open>Exceptions\<close>

text \<open>
  The body of an HTTP error response, as \<open>error.response.json().get("subStatus")\<close> sees
  it: not JSON at all (\<open>json()\<close> raises), JSON that is no object (\<open>.get\<close> raises), or an
  object, with the number under \<open>"subStatus"\<close> if there is one.
\<close>

datatype json = InvalidJson | JsonOther | JsonObject "int option"

record response =
  status_code :: int
  json_body :: json

datatype exn =
    HTTPError response
  | InvalidFileError
  | IndexError
  | ValueError
  | KeyError
  | AttributeError
  | JSONDecodeError
  | FileNotFoundError
  | OtherError string

text \<open>\<open>except requests.exceptions.HTTPError as error\<close>: the handler's test, and the
  response it reads.\<close>

fun http_error :: "exn \<Rightarrow> response option" where
  "http_error (HTTPError r) = Some r"
| "http_error _ = None"

text \<open>A call of \<open>download_track\<close> or \<open>download_album\<close> returns \<open>None\<close> or raises.\<close>

datatype outcome = Returned | Raised exn

section \<open>The world: files, and what was done\<close>

datatype event =
    Print str                \<comment> \<open>a line written by \<open>log\<close>\<close>
  | GetAlbumTracks album     \<comment> \<open>\<open>client.get_album_tracks(album)\<close>\<close>
  | GetMedia track           \<comment> \<open>\<open>client.get_media(track)\<close>\<close>
  | Authenticate             \<comment> \<open>\<open>client.authenticate()\<close>\<close>
  | HttpGet str              \<comment> \<open>\<open>requests.get(url)\<close>\<close>
  | Makedirs str             \<comment> \<open>\<open>os.makedirs(path, exist_ok=True)\<close>\<close>
  | OpenWrite str            \<comment> \<open>\<open>open(path, mode="wb")\<close>\<close>
  | Decrypt str              \<comment> \<open>\<open>decryptor(path)\<close>\<close>
  | Embed str                \<comment> \<open>a \<open>metadata.resolve_*_metadata\<close> call on the path\<close>
  | Remove str               \<comment> \<open>\<open>os.remove(path)\<close>\<close>
  | Rename str str           \<comment> \<open>\<open>os.rename(src, dst)\<close>\<close>

text \<open>
  The state is the map of regular files and the sequence of calls made so far.
  Directories are not part of it: \<open>os.makedirs\<close> is recorded as a call.
\<close>

record state =
  files :: "str \<rightharpoonup> bytes"
  trace :: "event list"

definition record_call :: "event \<Rightarrow> state \<Rightarrow> state" where
  "record_call e st = st\<lparr>trace := trace st @ [e]\<rparr>"

text \<open>The calls that go to the network.\<close>

fun network_call :: "event \<Rightarrow> bool" where
  "network_call (GetAlbumTracks _) = True"
| "network_call (GetMedia _) = True"
| "network_call Authenticate = True"
| "network_call (HttpGet _) = True"
| "network_call _ = False"

section \<open>Collaborators\<close>

text \<open>
  The client (\<open>TidalClient\<close>), \<open>requests\<close> and the module \<open>metadata\<close> are not among the
  sources. Each of their calls is a parameter: a function of the state in which the call
  is made (so an answer may depend on everything done before) and of the arguments,
  returning the call's result or the exception it raises.

  A decryptor and an embedder work on one file in place: they map its content to the new
  content, with an exception if they fail. \<open>http_stream\<close> is
  \<open>requests.get(url, stream=True)\<close> followed by \<open>raise_for_status()\<close>; \<open>http_cover\<close> is
  \<open>requests.get(url)\<close> followed by \<open>raise_for_status()\<close> and the reading of the body and
  the content type.

  \<open>os_error\<close> is the local file system refusing a call (a permission, a full disk, a
  directory in the way): from the state and the call about to be made, the exception the
  call raises, if any. A refused call changes no file.
\<close>

type_synonym transform = "bytes \<Rightarrow> exn option \<times> bytes"

record media =
  media_url :: str
  decryptor :: "transform option"

text \<open>The \<open>Content-Length\<close> header as \<open>int(request.headers["Content-Length"])\<close> sees it.\<close>

datatype content_length = Missing | Malformed | Length nat

text \<open>A streamed body: the chunks that arrive, and the exception that ends the
  iteration early, if any (raised after the chunks listed have been written).\<close>

record stream =
  length_header :: content_length
  chunks :: "bytes list"
  stream_error :: "exn option"

record cover =
  cover_data :: bytes
  cover_mime :: str

record world =
  get_album_tracks :: "state \<Rightarrow> album \<Rightarrow> exn + track list"
  get_media :: "state \<Rightarrow> track \<Rightarrow> exn + media"
  authenticate :: "state \<Rightarrow> exn option"
  http_stream :: "state \<Rightarrow> str \<Rightarrow> exn + stream"
  http_cover :: "state \<Rightarrow> str \<Rightarrow> exn + cover"
  resolve_mp4_metadata :: "config \<Rightarrow> track \<Rightarrow> cover option \<Rightarrow> transform"
  resolve_flac_metadata :: "config \<Rightarrow> track \<Rightarrow> cover option \<Rightarrow> transform"
  os_error :: "state \<Rightarrow> event \<Rightarrow> exn option"

section \<open>log\<close>

definition log :: "runtime \<Rightarrow> config \<Rightarrow> str \<Rightarrow> nat \<Rightarrow> state \<Rightarrow> state" where
  "log K cfg message indent st =
     (if \<not> quiet cfg then record_call (Print (concat (replicate indent (INDENT K)) @ message)) st
      else st)"


section \<open>get_track_path\<close>

text \<open>\<open>max(xs)\<close> of a list of numbers; \<open>max([])\<close> raises \<open>ValueError\<close>.\<close>

definition py_max :: "nat list \<Rightarrow> exn + nat" where
  "py_max xs = (case xs of [] \<Rightarrow> Inl ValueError | x # xs' \<Rightarrow> Inr (fold max xs' x))"

text \<open>\<open>str(number).zfill(len(str(maximum)))\<close>, as lines 127 and 129 write it.\<close>

definition padded :: "nat \<Rightarrow> nat \<Rightarrow> str" where
  "padded maximum number = zfill (length (str_nat maximum)) (str_nat number)"

text \<open>Lines 118 and 119: \<open>track.album.artists[0]\<close> raises \<open>IndexError\<close> on an empty list.\<close>

definition artist_segment :: "runtime \<Rightarrow> config \<Rightarrow> track \<Rightarrow> bool \<Rightarrow> exn + str" where
  "artist_segment K cfg t include_artist =
     (if include_artist \<or> full_structure cfg
      then (case album_artists (track_album t) of
              [] \<Rightarrow> Inl IndexError
            | a # _ \<Rightarrow> Inr (sanitize K cfg (artist_name a)))
      else Inr [])"

text \<open>Line 122, \<open>siblings = siblings or client.get_album_tracks(track.album)\<close>: a missing
  or empty list is fetched.\<close>

definition resolve_siblings ::
  "world \<Rightarrow> track \<Rightarrow> track list option \<Rightarrow> state \<Rightarrow> (exn + track list) \<times> state" where
  "resolve_siblings W t siblings st =
     (let fetched = (get_album_tracks W st (track_album t),
                     record_call (GetAlbumTracks (track_album t)) st)
      in case siblings of
           None \<Rightarrow> fetched
         | Some [] \<Rightarrow> fetched
         | Some (s # ss) \<Rightarrow> (Inr (s # ss), st))"

text \<open>Lines 123 to 130: the album, disc and file segments, from the siblings.\<close>

definition album_segments ::
  "runtime \<Rightarrow> config \<Rightarrow> track \<Rightarrow> track list \<Rightarrow> exn + (str \<times> str \<times> str)" where
  "album_segments K cfg t siblings =
     (case py_max (map disc_number siblings) of
        Inl e \<Rightarrow> Inl e
      | Inr maximum_disc_number \<Rightarrow>
          (case py_max (map track_number siblings) of
             Inl e \<Rightarrow> Inl e
           | Inr maximum_track_number \<Rightarrow>
               Inr (sanitize K cfg (album_name (track_album t)),
                    (if maximum_disc_number > 1
                     then sanitize K cfg
                            (ascii ''Disc '' @ padded maximum_disc_number (disc_number t))
                     else []),
                    sanitize K cfg
                      (padded maximum_track_number (track_number t) @ SPACE # track_name t))))"

definition get_track_path ::
  "runtime \<Rightarrow> world \<Rightarrow> config \<Rightarrow> track \<Rightarrow> track list option \<Rightarrow> bool \<Rightarrow> bool \<Rightarrow> state
     \<Rightarrow> (exn + str) \<times> state" where
  "get_track_path K W cfg t siblings include_artist include_album st =
     (case artist_segment K cfg t include_artist of
        Inl e \<Rightarrow> (Inl e, st)
      | Inr artist_path \<Rightarrow>
          if include_album \<or> full_structure cfg then
            (case resolve_siblings W t siblings st of
               (Inl e, st') \<Rightarrow> (Inl e, st')
             | (Inr sibs, st') \<Rightarrow>
                 (case album_segments K cfg t sibs of
                    Inl e \<Rightarrow> (Inl e, st')
                  | Inr (album_path, disc_path, file_path) \<Rightarrow>
                      (Inr (path_join (output_directory cfg)
                              [artist_path, album_path, disc_path, file_path]), st')))
          else
            (Inr (path_join (output_directory cfg)
                    [artist_path, [], [], sanitize K cfg (track_name t)]), st))"

section \<open>download_track\<close>

text \<open>Lines 156 and 157.\<close>

definition temporary_path :: "runtime \<Rightarrow> str \<Rightarrow> track \<Rightarrow> str" where
  "temporary_path K track_path t =
     track_path @ DOT # TEMPORARY_EXTENSION K @ DOT # extension t"

definition final_path :: "str \<Rightarrow> track \<Rightarrow> str" where
  "final_path track_path t = track_path @ DOT # extension t"

text \<open>The file-system calls, on the file map. Each is recorded when it is made, also when
  it raises. \<open>os.makedirs\<close> of the empty path raises \<open>FileNotFoundError\<close>; \<open>os.remove\<close> and
  \<open>os.rename\<close> of a file that is not there do.\<close>

definition isfile :: "state \<Rightarrow> str \<Rightarrow> bool" where
  "isfile st p \<longleftrightarrow> files st p \<noteq> None"

definition os_makedirs :: "world \<Rightarrow> str \<Rightarrow> state \<Rightarrow> exn option \<times> state" where
  "os_makedirs W p st =
     ((if p = [] then Some FileNotFoundError else os_error W st (Makedirs p)),
      record_call (Makedirs p) st)"

definition open_wb :: "world \<Rightarrow> str \<Rightarrow> state \<Rightarrow> exn option \<times> state" where
  "open_wb W p st =
     (case os_error W st (OpenWrite p) of
        Some e \<Rightarrow> (Some e, record_call (OpenWrite p) st)
      | None \<Rightarrow> (None, record_call (OpenWrite p) (st\<lparr>files := (files st)(p \<mapsto> [])\<rparr>)))"

definition file_write :: "str \<Rightarrow> bytes \<Rightarrow> state \<Rightarrow> state" where
  "file_write p chunk st =
     st\<lparr>files := (files st)(p \<mapsto> (case files st p of None \<Rightarrow> chunk | Some b \<Rightarrow> b @ chunk))\<rparr>"

definition os_remove :: "world \<Rightarrow> str \<Rightarrow> state \<Rightarrow> exn option \<times> state" where
  "os_remove W p st =
     (case files st p of
        None \<Rightarrow> (Some FileNotFoundError, record_call (Remove p) st)
      | Some _ \<Rightarrow>
          (case os_error W st (Remove p) of
             Some e \<Rightarrow> (Some e, record_call (Remove p) st)
           | None \<Rightarrow> (None, record_call (Remove p) (st\<lparr>files := (files st)(p := None)\<rparr>))))"

definition os_rename :: "world \<Rightarrow> str \<Rightarrow> str \<Rightarrow> state \<Rightarrow> exn option \<times> state" where
  "os_rename W src dst st =
     (case files st src of
        None \<Rightarrow> (Some FileNotFoundError, record_call (Rename src dst) st)
      | Some b \<Rightarrow>
          (case os_error W st (Rename src dst) of
             Some e \<Rightarrow> (Some e, record_call (Rename src dst) st)
           | None \<Rightarrow>
               (None, record_call (Rename src dst)
                        (st\<lparr>files := (files st)(src := None, dst \<mapsto> b)\<rparr>))))"

text \<open>A transform applied to the file at a path, in place.\<close>

definition apply_transform :: "transform \<Rightarrow> str \<Rightarrow> state \<Rightarrow> exn option \<times> state" where
  "apply_transform f p st =
     (case files st p of
        None \<Rightarrow> (Some FileNotFoundError, st)
      | Some b \<Rightarrow> (fst (f b), st\<lparr>files := (files st)(p \<mapsto> snd (f b))\<rparr>))"

text \<open>Lines 166 to 177, the inner \<open>try\<close>: the media locator, with the one retry after a
  429. The result is the locator or the exception that leaves the inner \<open>try\<close>.\<close>

definition too_many_requests_message :: str where
  "too_many_requests_message = ascii ''Too many requests, logging out and back in...''"

text \<open>The state in which \<open>client.authenticate()\<close> is called after a 429, and the state
  in which the locator is requested again.\<close>

definition before_authenticate :: "runtime \<Rightarrow> config \<Rightarrow> track \<Rightarrow> nat \<Rightarrow> state \<Rightarrow> state" where
  "before_authenticate K cfg t indent st =
     log K cfg too_many_requests_message indent (record_call (GetMedia t) st)"

definition before_retry :: "runtime \<Rightarrow> config \<Rightarrow> track \<Rightarrow> nat \<Rightarrow> state \<Rightarrow> state" where
  "before_retry K cfg t indent st = record_call Authenticate (before_authenticate K cfg t indent st)"

definition request_media ::
  "runtime \<Rightarrow> world \<Rightarrow> config \<Rightarrow> track \<Rightarrow> nat \<Rightarrow> state \<Rightarrow> (exn + media) \<times> state" where
  "request_media K W cfg t indent st =
     (case get_media W st t of
        Inr m \<Rightarrow> (Inr m, record_call (GetMedia t) st)
      | Inl error \<Rightarrow>
          (case http_error error of
             None \<Rightarrow> (Inl error, record_call (GetMedia t) st)
           | Some r \<Rightarrow>
               if status_code r = 429 then
                 (case authenticate W (before_authenticate K cfg t indent st) of
                    Some e \<Rightarrow> (Inl e, before_retry K cfg t indent st)
                  | None \<Rightarrow>
                      (get_media W (before_retry K cfg t indent st) t,
                       record_call (GetMedia t) (before_retry K cfg t indent st)))
               else (Inl error, record_call (GetMedia t) st)))"

text \<open>Lines 165 to 189, the outer \<open>try\<close>: an \<open>HTTPError\<close> that left the inner one is a
  skip when it is 401 with sub-status 4005, and is raised again otherwise. The result is
  the locator, or the way \<open>download_track\<close> ends.\<close>

definition not_available_message :: "str \<Rightarrow> str" where
  "not_available_message final =
     ascii ''Skipping download of '' @ basename final @ ascii ''; track is not available.''"

text \<open>\<open>error.response.json().get("subStatus")\<close>, which itself raises when the body is
  not a JSON object.\<close>

definition sub_status :: "response \<Rightarrow> exn + int option" where
  "sub_status r =
     (case json_body r of
        InvalidJson \<Rightarrow> Inl JSONDecodeError
      | JsonOther \<Rightarrow> Inl AttributeError
      | JsonObject v \<Rightarrow> Inr v)"

text \<open>The named skip condition of line 182.\<close>

definition not_entitled :: "response \<Rightarrow> bool" where
  "not_entitled r \<longleftrightarrow> status_code r = 401 \<and> sub_status r = Inr (Some 4005)"

definition acquire_media ::
  "runtime \<Rightarrow> world \<Rightarrow> config \<Rightarrow> track \<Rightarrow> str \<Rightarrow> nat \<Rightarrow> state \<Rightarrow> (outcome + media) \<times> state" where
  "acquire_media K W cfg t final indent st =
     (case request_media K W cfg t indent st of
        (Inr m, st') \<Rightarrow> (Inr m, st')
      | (Inl error, st') \<Rightarrow>
          (case http_error error of
             None \<Rightarrow> (Inl (Raised error), st')
           | Some r \<Rightarrow>
               (case sub_status r of
                  Inl e \<Rightarrow> (Inl (Raised e), st')
                | Inr sub \<Rightarrow>
                    if status_code r = 401 \<and> sub = Some 4005
                    then (Inl Returned, log K cfg (not_available_message final) indent st')
                    else (Inl (Raised error), st'))))"

text \<open>Lines 190 to 211: the directory, the request, and the body written chunk by chunk
  to the temporary path. The progress bar writes to the terminal only and is left out;
  what it needs, the \<open>Content-Length\<close> header, is read after the file is opened. An
  exception that ends the loop, from the iterator or from a write, is the stream's
  \<open>stream_error\<close>.\<close>

fun write_chunks :: "str \<Rightarrow> bytes list \<Rightarrow> state \<Rightarrow> state" where
  "write_chunks p [] st = st"
| "write_chunks p (chunk # rest) st = write_chunks p rest (file_write p chunk st)"

definition stream_payload ::
  "world \<Rightarrow> config \<Rightarrow> str \<Rightarrow> str \<Rightarrow> media \<Rightarrow> state \<Rightarrow> exn option \<times> state" where
  "stream_payload W cfg temporary final m st =
     (case os_makedirs W (dirname final) st of
        (Some e, st1) \<Rightarrow> (Some e, st1)
      | (None, st1) \<Rightarrow>
          (case http_stream W st1 (media_url m) of
             Inl e \<Rightarrow> (Some e, record_call (HttpGet (media_url m)) st1)
           | Inr request \<Rightarrow>
               (case open_wb W temporary (record_call (HttpGet (media_url m)) st1) of
                  (Some e, st3) \<Rightarrow> (Some e, st3)
                | (None, st3) \<Rightarrow>
                    (let written = (stream_error request,
                                    write_chunks temporary (chunks request) st3)
                     in if quiet cfg then written
                        else (case length_header request of
                                Missing \<Rightarrow> (Some KeyError, st3)
                              | Malformed \<Rightarrow> (Some ValueError, st3)
                              | Length _ \<Rightarrow> written)))))"

text \<open>Lines 213 to 215.\<close>

definition decrypt ::
  "runtime \<Rightarrow> config \<Rightarrow> str \<Rightarrow> media \<Rightarrow> nat \<Rightarrow> state \<Rightarrow> exn option \<times> state" where
  "decrypt K cfg temporary m indent st =
     (case decryptor m of
        None \<Rightarrow> (None, st)
      | Some d \<Rightarrow>
          apply_transform d temporary
            (record_call (Decrypt temporary) (log K cfg (ascii ''Decrypting...'') indent st)))"

text \<open>Lines 88 to 103. The embedder is looked up by the extension after the cover has
  been fetched; an extension that is neither \<open>mp4\<close> nor \<open>flac\<close> raises \<open>KeyError\<close>.\<close>

definition fetch_cover :: "world \<Rightarrow> track \<Rightarrow> state \<Rightarrow> (exn + cover option) \<times> state" where
  "fetch_cover W t st =
     (case cover_url (track_album t) of
        None \<Rightarrow> (Inr None, st)
      | Some url \<Rightarrow>
          if url = [] then (Inr None, st)
          else (case http_cover W st url of
                  Inl e \<Rightarrow> (Inl e, record_call (HttpGet url) st)
                | Inr c \<Rightarrow> (Inr (Some c), record_call (HttpGet url) st)))"

definition embedder :: "world \<Rightarrow> str \<Rightarrow> (config \<Rightarrow> track \<Rightarrow> cover option \<Rightarrow> transform) option" where
  "embedder W ext =
     (if ext = ascii ''mp4'' then Some (resolve_mp4_metadata W)
      else if ext = ascii ''flac'' then Some (resolve_flac_metadata W)
      else None)"

definition resolve_metadata ::
  "runtime \<Rightarrow> world \<Rightarrow> config \<Rightarrow> track \<Rightarrow> str \<Rightarrow> nat \<Rightarrow> state \<Rightarrow> exn option \<times> state" where
  "resolve_metadata K W cfg t path indent st =
     (case fetch_cover W t (log K cfg (ascii ''Resolving metadata...'') indent st) of
        (Inl e, st') \<Rightarrow> (Some e, st')
      | (Inr cover, st') \<Rightarrow>
          (case embedder W (extension t) of
             None \<Rightarrow> (Some KeyError, st')
           | Some resolve \<Rightarrow>
               apply_transform (resolve cfg t cover) path (record_call (Embed path) st')))"

text \<open>Lines 217 to 228.\<close>

definition invalid_file_message :: "str \<Rightarrow> str" where
  "invalid_file_message final =
     ascii ''Skipping '' @ basename final @ ascii ''; received invalid file''"

definition finish :: "exn option \<times> state \<Rightarrow> outcome \<times> state" where
  "finish r = (case fst r of None \<Rightarrow> (Returned, snd r) | Some e \<Rightarrow> (Raised e, snd r))"

definition finalize ::
  "runtime \<Rightarrow> world \<Rightarrow> config \<Rightarrow> track \<Rightarrow> str \<Rightarrow> str \<Rightarrow> nat \<Rightarrow> state \<Rightarrow> outcome \<times> state" where
  "finalize K W cfg t temporary final indent st =
     (if \<not> skip_metadata cfg then
        (case resolve_metadata K W cfg t temporary indent st of
           (None, st') \<Rightarrow> finish (os_rename W temporary final st')
         | (Some e, st') \<Rightarrow>
             if e = InvalidFileError
             then finish (os_remove W temporary
                            (log K cfg (invalid_file_message final) indent st'))
             else (Raised e, st'))
      else finish (os_rename W temporary final st))"

text \<open>Lines 139 to 228.\<close>

definition already_exists_message :: "str \<Rightarrow> str" where
  "already_exists_message final =
     ascii ''Skipping download of '' @ basename final @ ascii ''; it already exists.''"

definition transfer ::
  "runtime \<Rightarrow> world \<Rightarrow> config \<Rightarrow> track \<Rightarrow> str \<Rightarrow> str \<Rightarrow> nat \<Rightarrow> media \<Rightarrow> state
     \<Rightarrow> outcome \<times> state" where
  "transfer K W cfg t temporary final indent m st =
     (case stream_payload W cfg temporary final m st of
        (Some e, st') \<Rightarrow> (Raised e, st')
      | (None, st') \<Rightarrow>
          (case decrypt K cfg temporary m indent st' of
             (Some e, st'') \<Rightarrow> (Raised e, st'')
           | (None, st'') \<Rightarrow> finalize K W cfg t temporary final indent st''))"

definition download_track ::
  "runtime \<Rightarrow> world \<Rightarrow> config \<Rightarrow> track \<Rightarrow> track list option \<Rightarrow> bool \<Rightarrow> bool \<Rightarrow> nat \<Rightarrow> state
     \<Rightarrow> outcome \<times> state" where
  "download_track K W cfg t siblings include_artist include_album indent st =
     (case get_track_path K W cfg t siblings include_artist include_album st of
        (Inl e, st') \<Rightarrow> (Raised e, st')
      | (Inr track_path, st') \<Rightarrow>
          (let temporary = temporary_path K track_path t;
               final = final_path track_path t
           in if isfile st' final
              then (Returned, log K cfg (already_exists_message final) indent st')
              else (case acquire_media K W cfg t final indent st' of
                      (Inl ended, st'') \<Rightarrow> (ended, st'')
                    | (Inr m, st'') \<Rightarrow> transfer K W cfg t temporary final indent m st'')))"

section \<open>download_album\<close>

definition QUOTE :: codepoint where "QUOTE = 34"

definition progress_message :: "track \<Rightarrow> nat \<Rightarrow> nat \<Rightarrow> str" where
  "progress_message t index n =
     ascii ''Downloading '' @ QUOTE # track_name t @ QUOTE # ascii '' ('' @ str_nat index
       @ ascii '' of '' @ str_nat n @ ascii '' track(s))...''"

text \<open>Lines 251 to 265, the loop: \<open>index\<close> is the position of the next track,
  \<open>tracks\<close> the whole list, and the last list what is left to do. A call that raises
  ends the loop.\<close>

fun download_tracks ::
  "runtime \<Rightarrow> world \<Rightarrow> config \<Rightarrow> bool \<Rightarrow> nat \<Rightarrow> track list \<Rightarrow> nat \<Rightarrow> track list \<Rightarrow> state
     \<Rightarrow> outcome \<times> state" where
  "download_tracks K W cfg include_artist indent tracks index [] st = (Returned, st)"
| "download_tracks K W cfg include_artist indent tracks index (t # rest) st =
     (case download_track K W cfg t (Some tracks) include_artist True (indent + 1)
             (log K cfg (progress_message t index (length tracks)) indent st) of
        (Raised e, st') \<Rightarrow> (Raised e, st')
      | (Returned, st') \<Rightarrow>
          download_tracks K W cfg include_artist indent tracks (index + 1) rest st')"





section \<open>Runs\<close>

text \<open>The calls made between two states of one run, and the statement that the second
  state continues the first by calls that all satisfy a predicate.\<close>

definition calls_since :: "state \<Rightarrow> state \<Rightarrow> event list" where
  "calls_since st st' = drop (length (trace st)) (trace st')"

definition continues :: "(event \<Rightarrow> bool) \<Rightarrow> state \<Rightarrow> state \<Rightarrow> bool" where
  "continues P st st' \<longleftrightarrow>
     take (length (trace st)) (trace st') = trace st \<and> list_all P (calls_since st st')"

text \<open>Kinds of call.\<close>

fun media_call :: "event \<Rightarrow> bool" where
  "media_call (GetMedia _) = True"
| "media_call Authenticate = True"
| "media_call _ = False"

fun listing_call :: "event \<Rightarrow> bool" where
  "listing_call (GetAlbumTracks _) = True"
| "listing_call _ = False"

fun rename_call :: "event \<Rightarrow> bool" where
  "rename_call (Rename _ _) = True"
| "rename_call _ = False"

fun metadata_call :: "event \<Rightarrow> bool" where
  "metadata_call (Embed _) = True"
| "metadata_call _ = False"


section \<open>Normal forms and concrete inputs\<close>

text \<open>The words of a string in nice form: non-empty, of lowercase ASCII letters and
  digits.\<close>

definition nice_words :: "str list \<Rightarrow> bool" where
  "nice_words ws \<longleftrightarrow>
     (\<forall>w \<in> set ws. w \<noteq> [] \<and> (\<forall>c \<in> set w. ascii_isalnum c \<and> ascii_lower c = c))"

definition nice_config :: config where
  "nice_config = \<lparr>output_directory = ascii ''out'', nice_format = True,
                   full_structure = False, skip_metadata = False, quiet = False\<rparr>"

definition plain_config :: config where
  "plain_config = \<lparr>output_directory = ascii ''out'', nice_format = False,
                    full_structure = False, skip_metadata = False, quiet = False\<rparr>"

definition demo_artist :: artist where
  "demo_artist = \<lparr>artist_name = ascii ''Band''\<rparr>"

definition demo_album :: album where
  "demo_album = \<lparr>album_name = ascii ''Demo'', album_artists = [demo_artist], cover_url = None\<rparr>"

text \<open>A track of the demo album, by disc and track number.\<close>

definition demo_track :: "nat \<Rightarrow> nat \<Rightarrow> track" where
  "demo_track d n = \<lparr>track_name = ascii ''Song'', disc_number = d, track_number = n,
                      extension = ascii ''mp4'', track_album = demo_album, track_artists = []\<rparr>"

text \<open>An album that the Media Source lists without artists, and a track of it.\<close>

definition orphan_album :: album where
  "orphan_album = \<lparr>album_name = ascii ''Demo'', album_artists = [], cover_url = None\<rparr>"

definition orphan_track :: track where
  "orphan_track = \<lparr>track_name = ascii ''Song'', disc_number = 1, track_number = 1,
                    extension = ascii ''mp4'', track_album = orphan_album,
                    track_artists = [demo_artist]\<rparr>"

definition empty_state :: state where
  "empty_state = \<lparr>files = Map.empty, trace = []\<rparr>"

text \<open>A world that lists the given tracks for every album, answers every media request
  and every transfer as given, whose embedders succeed and leave the file as it is, and
  whose file system refuses nothing.\<close>

definition keep :: transform where
  "keep b = (None, b)"

definition demo_world :: "track list \<Rightarrow> (state \<Rightarrow> exn + media) \<Rightarrow> (exn + stream) \<Rightarrow> world" where
  "demo_world tracks media_answer stream_answer =
     \<lparr>get_album_tracks = (\<lambda>st a. Inr tracks),
      get_media = (\<lambda>st t. media_answer st),
      authenticate = (\<lambda>st. None),
      http_stream = (\<lambda>st url. stream_answer),
      http_cover = (\<lambda>st url. Inl (OtherError ''ConnectionError'')),
      resolve_mp4_metadata = (\<lambda>cfg t c. keep),
      resolve_flac_metadata = (\<lambda>cfg t c. keep),
      os_error = (\<lambda>st call. None)\<rparr>"

definition plain_media :: media where
  "plain_media = \<lparr>media_url = ascii ''https://cdn/1'', decryptor = None\<rparr>"

definition demo_stream :: stream where
  "demo_stream = \<lparr>length_header = Length 3, chunks = [[1, 2], [3]], stream_error = None\<rparr>"

text \<open>An album of two discs whose track numbers go up to 12, listed out of order.\<close>

definition two_discs :: "track list" where
  "two_discs = [demo_track 1 12, demo_track 2 3, demo_track 1 7]"

definition listing_world :: "track list \<Rightarrow> world" where
  "listing_world tracks = demo_world tracks (\<lambda>st. Inr plain_media) (Inr demo_stream)"

text \<open>The paths of the demo track when neither the artist nor the album is included.\<close>

definition demo_final :: str where
  "demo_final = ascii ''out/Song.mp4''"

definition demo_temporary :: str where
  "demo_temporary = ascii ''out/Song.tmp.mp4''"



text \<open>The full directory structure, and a state in which the demo track's file under it is
  already there.\<close>

definition full_config :: config where
  "full_config = \<lparr>output_directory = ascii ''out'', nice_format = False,
                   full_structure = True, skip_metadata = False, quiet = False\<rparr>"

definition listed_final :: str where
  "listed_final = ascii ''out/Band/Demo/7 Song.mp4''"

definition listed_state :: state where
  "listed_state = \<lparr>files = [listed_final \<mapsto> [1, 2, 3]], trace = []\<rparr>"

definition present_state :: state where
  "present_state = \<lparr>files = [demo_final \<mapsto> [1, 2, 3]], trace = []\<rparr>"

text \<open>A configuration that leaves the metadata out, and a world whose embedders reject
  every file.\<close>

definition bare_config :: config where
  "bare_config = \<lparr>output_directory = ascii ''out'', nice_format = False,
                   full_structure = False, skip_metadata = True, quiet = False\<rparr>"

definition reject :: transform where
  "reject b = (Some InvalidFileError, b)"

definition rejecting_world :: world where
  "rejecting_world =
     (listing_world [])\<lparr>resolve_mp4_metadata := (\<lambda>cfg t c. reject),
                        resolve_flac_metadata := (\<lambda>cfg t c. reject)\<rparr>"

text \<open>Worlds whose client answers every media request with one HTTP error: too many
  requests, not entitled, and forbidden.\<close>

definition throttled_response :: response where
  "throttled_response = \<lparr>status_code = 429, json_body = JsonObject None\<rparr>"

definition not_entitled_response :: response where
  "not_entitled_response = \<lparr>status_code = 401, json_body = JsonObject (Some 4005)\<rparr>"

definition forbidden_response :: response where
  "forbidden_response = \<lparr>status_code = 403, json_body = JsonObject None\<rparr>"

definition refusing_world :: "response \<Rightarrow> world" where
  "refusing_world r = demo_world [] (\<lambda>st. Inl (HTTPError r)) (Inr demo_stream)"



section \<open>Properties\<close>

subsection \<open>Splitting and joining\<close>

lemma split_not_Nil: "split sep s \<noteq> []"
  by (induction s) (auto split: list.splits)

lemma split_no_sep: "sep \<notin> set w \<Longrightarrow> split sep w = [w]"
  by (induction w) auto

lemma split_append_sep: "sep \<notin> set w \<Longrightarrow> split sep (w @ sep # r) = w # split sep r"
  by (induction w) auto

lemma split_words_no_sep: "w \<in> set (split sep s) \<Longrightarrow> sep \<notin> set w"
  by (induction s arbitrary: w) (auto split: if_splits list.splits)

lemma split_chars: "c \<in> set w \<Longrightarrow> w \<in> set (split sep s) \<Longrightarrow> c \<in> set s"
  by (induction s arbitrary: w) (fastforce split: if_splits list.splits)+

lemma split_words_subset: "w \<in> set (split sep s) \<Longrightarrow> set w \<subseteq> set s"
  using split_chars by fast

lemma split_join:
  "\<forall>w \<in> set ws. w \<noteq> [] \<and> sep \<notin> set w \<Longrightarrow>
   filter (\<lambda>w. w \<noteq> []) (split sep (join sep ws)) = ws"
proof (induction sep ws rule: join.induct)
  case (1 sep)
  show ?case by simp
next
  case (2 sep w)
  then show ?case by (simp add: split_no_sep)
next
  case (3 sep w v ws)
  then show ?case by (simp add: split_append_sep)
qed

lemma map_join: "map f (join sep ws) = join (f sep) (map (map f) ws)"
  by (induction sep ws rule: join.induct) auto

lemma set_join: "set (join sep ws) \<subseteq> insert sep (\<Union> (set ` set ws))"
  by (induction sep ws rule: join.induct) auto

lemma filter_id: "\<forall>x \<in> set xs. P x \<Longrightarrow> filter P xs = xs"
  by (induction xs) auto

lemma map_id_on: "\<forall>x \<in> set xs. f x = x \<Longrightarrow> map f xs = xs"
  by (induction xs) auto

lemma ascii_lower_props:
  "ascii_isalnum c \<Longrightarrow> ascii_isalnum (ascii_lower c) \<and> ascii_lower (ascii_lower c) = ascii_lower c
     \<and> ascii_lower c < 128 \<and> ascii_lower c \<noteq> HYPHEN \<and> ascii_lower c \<noteq> SPACE \<and> c < 128"
  by (auto simp: ascii_isalnum_def ascii_lower_def HYPHEN_def SPACE_def)

lemma nice_words_chars:
  assumes "nice_words ws" "c \<in> set (join HYPHEN ws)"
  shows "c = HYPHEN \<or> (ascii_isalnum c \<and> ascii_lower c = c)"
  using assms set_join [of HYPHEN ws] by (auto simp: nice_words_def)

lemma alnum_not_sep: "ascii_isalnum c \<Longrightarrow> c \<noteq> HYPHEN \<and> c \<noteq> SPACE \<and> c < 128"
  by (auto simp: ascii_isalnum_def HYPHEN_def SPACE_def)

lemma sanitize_nice_fixed:
  assumes K: "ascii_tables K" and nice: "nice_format cfg" and ws: "nice_words ws"
  shows "sanitize K cfg (join HYPHEN ws) = join HYPHEN ws"
proof -
  let ?j = "join HYPHEN ws"
  have chars: "\<forall>c \<in> set ?j. c = HYPHEN \<or> (ascii_isalnum c \<and> ascii_lower c = c)"
    using nice_words_chars [OF ws] by blast
  have small: "\<forall>c \<in> set ?j. c < 128"
    using chars alnum_not_sep by (auto simp: HYPHEN_def)
  have keep: "filter (\<lambda>c. isalnum K c \<or> c = SPACE \<or> c = HYPHEN) ?j = ?j"
  proof (rule filter_id, rule ballI)
    fix c assume c: "c \<in> set ?j"
    with chars small K show "isalnum K c \<or> c = SPACE \<or> c = HYPHEN"
      by (auto simp: ascii_tables_def)
  qed
  have nosp: "replace SPACE HYPHEN ?j = ?j"
    unfolding replace_def
  proof (rule map_id_on, rule ballI)
    fix c assume "c \<in> set ?j"
    with chars have "c = HYPHEN \<or> ascii_isalnum c" by blast
    then have "c \<noteq> SPACE" using alnum_not_sep by (auto simp: HYPHEN_def SPACE_def)
    then show "(if c = SPACE then HYPHEN else c) = c" by simp
  qed
  have words: "filter (\<lambda>w. w \<noteq> []) (split HYPHEN ?j) = ws"
  proof (rule split_join, rule ballI)
    fix w assume "w \<in> set ws"
    with ws alnum_not_sep show "w \<noteq> [] \<and> HYPHEN \<notin> set w"
      by (auto simp: nice_words_def)
  qed
  have "lower K ?j = map ascii_lower ?j"
    using K small by (simp add: ascii_tables_def)
  also have "\<dots> = ?j"
  proof (rule map_id_on, rule ballI)
    fix c assume "c \<in> set ?j"
    with chars show "ascii_lower c = c" by (auto simp: ascii_lower_def HYPHEN_def)
  qed
  finally have low: "lower K ?j = ?j" .
  show ?thesis
    using nice by (simp add: sanitize_def Let_def keep nosp words low)
qed

lemma ascii_tables_isalnum: "ascii_tables K \<Longrightarrow> c < 128 \<Longrightarrow> isalnum K c = ascii_isalnum c"
  unfolding ascii_tables_def by blast

lemma ascii_tables_lower:
  "ascii_tables K \<Longrightarrow> \<forall>c \<in> set s. c < 128 \<Longrightarrow> lower K s = map ascii_lower s"
  unfolding ascii_tables_def by blast

lemma replace_chars: "c \<in> set (replace old new s) \<Longrightarrow> c = new \<or> (c \<in> set s \<and> c \<noteq> old)"
  unfolding replace_def by auto

lemma ascii_lower_HYPHEN: "ascii_lower HYPHEN = HYPHEN"
  by (simp add: ascii_lower_def HYPHEN_def)

lemma sanitize_nice_form:
  assumes K: "ascii_tables K" and nice: "nice_format cfg" and s: "\<forall>c \<in> set s. c < 128"
  shows "\<exists>ws. nice_words ws \<and> sanitize K cfg s = join HYPHEN ws"
proof -
  let ?a = "filter (\<lambda>c. isalnum K c \<or> c = SPACE \<or> c = HYPHEN) s"
  let ?h = "replace SPACE HYPHEN ?a"
  let ?ws = "filter (\<lambda>w. w \<noteq> []) (split HYPHEN ?h)"
  let ?j = "join HYPHEN ?ws"
  have h_chars: "c = HYPHEN \<or> ascii_isalnum c" if c: "c \<in> set ?h" for c
  proof -
    from replace_chars [OF c] have "c = HYPHEN \<or> (c \<in> set ?a \<and> c \<noteq> SPACE)" .
    then show ?thesis
    proof
      assume "c = HYPHEN" then show ?thesis by simp
    next
      assume a: "c \<in> set ?a \<and> c \<noteq> SPACE"
      then have "c \<in> set s" and k: "isalnum K c \<or> c = SPACE \<or> c = HYPHEN" by auto
      with s have "c < 128" by blast
      from ascii_tables_isalnum [OF K this] k a show ?thesis by blast
    qed
  qed
  have w_chars: "w \<noteq> [] \<and> (\<forall>c \<in> set w. ascii_isalnum c)" if w: "w \<in> set ?ws" for w
  proof -
    from w have in_split: "w \<in> set (split HYPHEN ?h)" and ne: "w \<noteq> []" by simp_all
    have no: "HYPHEN \<notin> set w" using split_words_no_sep [OF in_split] .
    have "ascii_isalnum c" if c: "c \<in> set w" for c
    proof -
      from split_chars [OF c in_split] have "c \<in> set ?h" .
      from h_chars [OF this] c no show ?thesis by blast
    qed
    with ne show ?thesis by blast
  qed
  have j_small: "\<forall>c \<in> set ?j. c < 128"
  proof (rule ballI)
    fix c assume "c \<in> set ?j"
    with set_join [of HYPHEN ?ws] have "c = HYPHEN \<or> (\<exists>w \<in> set ?ws. c \<in> set w)" by blast
    then show "c < 128"
    proof
      assume "c = HYPHEN" then show ?thesis by (simp add: HYPHEN_def)
    next
      assume "\<exists>w \<in> set ?ws. c \<in> set w"
      then obtain w where "w \<in> set ?ws" "c \<in> set w" by blast
      with w_chars have "ascii_isalnum c" by blast
      with alnum_not_sep show ?thesis by blast
    qed
  qed
  have "sanitize K cfg s = lower K ?j"
    using nice unfolding sanitize_def Let_def by simp
  also have "\<dots> = map ascii_lower ?j"
    by (rule ascii_tables_lower [OF K j_small])
  also have "\<dots> = join HYPHEN (map (map ascii_lower) ?ws)"
    unfolding map_join ascii_lower_HYPHEN ..
  finally have eq: "sanitize K cfg s = join HYPHEN (map (map ascii_lower) ?ws)" .
  have "nice_words (map (map ascii_lower) ?ws)"
    unfolding nice_words_def
  proof (rule ballI)
    fix v assume "v \<in> set (map (map ascii_lower) ?ws)"
    then obtain w where w: "w \<in> set ?ws" and v: "v = map ascii_lower w" by auto
    from w_chars [OF w] have ne: "w \<noteq> []" and al: "\<forall>c \<in> set w. ascii_isalnum c" by blast+
    have "ascii_isalnum d \<and> ascii_lower d = d" if "d \<in> set v" for d
    proof -
      from that v obtain c where "c \<in> set w" "d = ascii_lower c" by auto
      with al ascii_lower_props [of c] show ?thesis by simp
    qed
    then have all: "\<forall>c \<in> set v. ascii_isalnum c \<and> ascii_lower c = c" by blast
    from ne have "map ascii_lower w \<noteq> []" by simp
    then have "v \<noteq> []" unfolding v .
    with all show "v \<noteq> [] \<and> (\<forall>c \<in> set v. ascii_isalnum c \<and> ascii_lower c = c)" by blast
  qed
  with eq show ?thesis by blast
qed

lemma sanitize_plain_idem:
  "\<not> nice_format cfg \<Longrightarrow> sanitize K cfg (sanitize K cfg s) = sanitize K cfg s"
  by (simp add: sanitize_def)

text \<open>
  Where \<open>sanitize\<close> is idempotent: on every string when nice-format is disabled, and,
  when it is enabled, on every string of ASCII characters under any runtime whose tables
  agree with CPython's on ASCII.
\<close>

lemma sanitize_idempotent_ascii:
  assumes "nice_format cfg \<longrightarrow> ascii_tables K \<and> (\<forall>c \<in> set s. c < 128)"
  shows "sanitize K cfg (sanitize K cfg s) = sanitize K cfg s"
proof (cases "nice_format cfg")
  case False
  then show ?thesis by (rule sanitize_plain_idem)
next
  case True
  with assms have K: "ascii_tables K" and s: "\<forall>c \<in> set s. c < 128" by auto
  from sanitize_nice_form [OF K True s] obtain ws
    where "nice_words ws" "sanitize K cfg s = join HYPHEN ws" by blast
  then show ?thesis using sanitize_nice_fixed [OF K True] by simp
qed

lemma cpython_ascii_tables: "ascii_tables cpython_excerpt"
proof -
  have "(\<forall>c \<in> set s. c < 128) \<Longrightarrow> excerpt_lower s = map ascii_lower s" for s
    by (induction s) (auto simp: excerpt_lower_def)
  then show ?thesis
    by (auto simp: ascii_tables_def cpython_excerpt_def excerpt_isalnum_def)
qed

lemma sanitize_idempotent_example:
  "sanitize cpython_excerpt nice_config (sanitize cpython_excerpt nice_config (ascii ''My Song - X''))
     = sanitize cpython_excerpt nice_config (ascii ''My Song - X'')"
proof -
  have small: "\<forall>c \<in> set (ascii ''My Song - X''). c < 128"
    by (simp add: ascii_def)
  have "nice_format nice_config
          \<longrightarrow> ascii_tables cpython_excerpt \<and> (\<forall>c \<in> set (ascii ''My Song - X''). c < 128)"
    using cpython_ascii_tables small by blast
  then show ?thesis by (rule sanitize_idempotent_ascii)
qed

lemma sanitize_dotted_I: "sanitize cpython_excerpt nice_config [304] = [105, 775]"
  by (simp add: sanitize_def nice_config_def cpython_excerpt_def excerpt_isalnum_def excerpt_lower_def
        ascii_isalnum_def ascii_lower_def replace_def SPACE_def HYPHEN_def)

lemma sanitize_dotted_i: "sanitize cpython_excerpt nice_config [105, 775] = [105]"
  by (simp add: sanitize_def nice_config_def cpython_excerpt_def excerpt_isalnum_def excerpt_lower_def
        ascii_isalnum_def ascii_lower_def replace_def SPACE_def HYPHEN_def)

text \<open>
  Claim C2 on the name \<open>\<Idot>stanbul\<close>, written with U+0130, in nice mode: the first
  character is alphanumeric and is kept; lowercasing, which runs last, turns it into U+0069
  U+0307; and a second pass drops U+0307, which is not alphanumeric. So \<open>sanitize\<close> applied
  twice is not \<open>sanitize\<close> applied once.
\<close>

theorem sanitize_twice_dotted_I:
  "sanitize cpython_excerpt nice_config (304 # ascii ''stanbul'') = 105 # 775 # ascii ''stanbul''
   \<and> sanitize cpython_excerpt nice_config
         (sanitize cpython_excerpt nice_config (304 # ascii ''stanbul'')) = ascii ''istanbul''
   \<and> sanitize cpython_excerpt nice_config [304] = [105, 775]
   \<and> sanitize cpython_excerpt nice_config (sanitize cpython_excerpt nice_config [304]) = [105]"
proof -
  have "sanitize cpython_excerpt nice_config (304 # ascii ''stanbul'')
          = 105 # 775 # ascii ''stanbul''"
    by code_simp
  moreover have "sanitize cpython_excerpt nice_config
         (sanitize cpython_excerpt nice_config (304 # ascii ''stanbul'')) = ascii ''istanbul''"
    by code_simp
  moreover have "sanitize cpython_excerpt nice_config (sanitize cpython_excerpt nice_config [304])
                   = [105]"
    unfolding sanitize_dotted_I sanitize_dotted_i ..
  ultimately show ?thesis
    using sanitize_dotted_I by (intro conjI)
qed

subsection \<open>Numerals and padding\<close>

lemma length_str_nat_pos: "0 < length (str_nat n)"
  by (subst str_nat.simps) simp

lemma length_str_nat_mono: "m \<le> n \<Longrightarrow> length (str_nat m) \<le> length (str_nat n)"
proof (induction n arbitrary: m rule: str_nat.induct)
  case (1 n)
  show ?case
  proof (cases "n < 10")
    case True
    with "1.prems" have "m < 10" by simp
    with True show ?thesis
      by (subst str_nat.simps, subst (2) str_nat.simps) simp
  next
    case False
    show ?thesis
    proof (cases "m < 10")
      case True
      have "length (str_nat m) = 1" using True by (subst str_nat.simps) simp
      with length_str_nat_pos [of n] show ?thesis by (cases "str_nat n") simp_all
    next
      case m: False
      from "1.prems" have "m div 10 \<le> n div 10" by (rule div_le_mono)
      from "1.IH" [OF False this]
      have "length (str_nat (m div 10)) \<le> length (str_nat (n div 10))" .
      moreover have "length (str_nat m) = Suc (length (str_nat (m div 10)))"
        using m by (subst str_nat.simps) simp
      moreover have "length (str_nat n) = Suc (length (str_nat (n div 10)))"
        using False by (subst str_nat.simps) simp
      ultimately show ?thesis by simp
    qed
  qed
qed

lemma length_zfill: "length (zfill width s) = max width (length s)"
  by (cases s) (auto simp: zfill_def)

lemma length_padded:
  "number \<le> maximum \<Longrightarrow> length (padded maximum number) = length (str_nat maximum)"
  using length_str_nat_mono [of number maximum] by (simp add: padded_def length_zfill)

lemma py_max_Max: "xs \<noteq> [] \<Longrightarrow> py_max xs = Inr (Max (set xs))"
  by (cases xs) (simp_all add: py_max_def Max.set_eq_fold [symmetric])

lemma album_segments_eq:
  assumes "siblings \<noteq> []"
  shows "album_segments K cfg t siblings =
     Inr (sanitize K cfg (album_name (track_album t)),
          (if 1 < Max (disc_number ` set siblings)
           then sanitize K cfg
                  (ascii ''Disc '' @ padded (Max (disc_number ` set siblings)) (disc_number t))
           else []),
          sanitize K cfg
            (padded (Max (track_number ` set siblings)) (track_number t)
               @ SPACE # track_name t))"
  using assms by (simp add: album_segments_def py_max_Max)

lemma album_segments_set:
  assumes "set siblings' = set siblings"
  shows "album_segments K cfg t siblings' = album_segments K cfg t siblings"
proof (cases "siblings = []")
  case True
  with assms show ?thesis by simp
next
  case False
  with assms have "siblings' \<noteq> []" by auto
  with False assms show ?thesis by (simp add: album_segments_eq)
qed

lemma padded_width_siblings:
  assumes "u \<in> set siblings"
  shows "length (padded (Max (track_number ` set siblings)) (track_number u))
           = length (str_nat (Max (track_number ` set siblings)))"
    and "length (padded (Max (disc_number ` set siblings)) (disc_number u))
           = length (str_nat (Max (disc_number ` set siblings)))"
  using assms by (simp_all add: length_padded)

lemma str_nat_digits: "set (str_nat n) \<subseteq> {c. ZERO \<le> c \<and> c < ZERO + 10}"
proof (induction n rule: str_nat.induct)
  case (1 n)
  show ?case
  proof (cases "n < 10")
    case True
    then show ?thesis by (subst str_nat.simps) simp
  next
    case False
    from "1.IH" [OF False] show ?thesis
      using False by (subst str_nat.simps) auto
  qed
qed

lemma str_nat_no_sign: "str_nat n = c # cs \<Longrightarrow> c \<noteq> PLUS \<and> c \<noteq> HYPHEN"
proof -
  assume "str_nat n = c # cs"
  then have "c \<in> set (str_nat n)" by simp
  with str_nat_digits [of n] have "ZERO \<le> c" by blast
  then show ?thesis by (auto simp: ZERO_def PLUS_def HYPHEN_def)
qed

lemma padded_eq:
  "padded maximum number
     = replicate (length (str_nat maximum) - length (str_nat number)) ZERO @ str_nat number"
proof (cases "str_nat number")
  case Nil
  with length_str_nat_pos [of number] show ?thesis by simp
next
  case (Cons c cs)
  from str_nat_no_sign [OF Cons] Cons show ?thesis
    by (simp add: padded_def zfill_def)
qed

lemma str_nat_small: "n < 10 \<Longrightarrow> str_nat n = [ZERO + n]"
  by (subst str_nat.simps) simp

lemma str_nat_large: "\<not> n < 10 \<Longrightarrow> str_nat n = str_nat (n div 10) @ [ZERO + n mod 10]"
  by (subst str_nat.simps) simp

lemmas str_nat_numeral = str_nat_small str_nat_large ZERO_def

lemma demo_numerals:
  "str_nat 7 = [55]" "str_nat 12 = [49, 50]" "str_nat 2 = [50]" "str_nat 1 = [49]" "str_nat 3 = [51]"
  by (simp_all add: str_nat_numeral)

lemma two_discs_maxima:
  "Max (disc_number ` set two_discs) = 2" "Max (track_number ` set two_discs) = 12"
  by (simp_all add: two_discs_def demo_track_def)

text \<open>
  Claim C7: with album inclusion active, the track numeral is zero-padded to the number of
  digits of the largest track number among the siblings and the disc numeral to that of
  the largest disc number, so every sibling's numeral has the same width; the segments
  depend on which tracks are siblings, not on their order; and the disc segment is
  present only when the largest disc number exceeds one.
\<close>

theorem get_track_path_padding:
  assumes "include_album \<or> full_structure cfg"
    and "artist_segment K cfg t include_artist = Inr artist_path"
    and "resolve_siblings W t siblings st = (Inr sibs, st')"
    and "sibs \<noteq> []"
  shows "get_track_path K W cfg t siblings include_artist include_album st
           = (Inr (path_join (output_directory cfg)
                     [artist_path,
                      sanitize K cfg (album_name (track_album t)),
                      (if 1 < Max (disc_number ` set sibs)
                       then sanitize K cfg
                              (ascii ''Disc ''
                                 @ replicate (length (str_nat (Max (disc_number ` set sibs)))
                                                - length (str_nat (disc_number t))) ZERO
                                 @ str_nat (disc_number t))
                       else []),
                      sanitize K cfg
                        (replicate (length (str_nat (Max (track_number ` set sibs)))
                                      - length (str_nat (track_number t))) ZERO
                           @ str_nat (track_number t) @ SPACE # track_name t)]), st')
         \<and> (\<forall>u \<in> set sibs.
               length (padded (Max (track_number ` set sibs)) (track_number u))
                 = length (str_nat (Max (track_number ` set sibs)))
             \<and> length (padded (Max (disc_number ` set sibs)) (disc_number u))
                 = length (str_nat (Max (disc_number ` set sibs))))
         \<and> (\<forall>sibs'. set sibs' = set sibs
               \<longrightarrow> album_segments K cfg t sibs' = album_segments K cfg t sibs)"
proof -
  have path: "get_track_path K W cfg t siblings include_artist include_album st
                = (case album_segments K cfg t sibs of
                     Inl e \<Rightarrow> (Inl e, st')
                   | Inr (album_path, disc_path, file_path) \<Rightarrow>
                       (Inr (path_join (output_directory cfg)
                               [artist_path, album_path, disc_path, file_path]), st'))"
    using assms(1-3) by (auto simp: get_track_path_def)
  have 1: "get_track_path K W cfg t siblings include_artist include_album st
           = (Inr (path_join (output_directory cfg)
                     [artist_path,
                      sanitize K cfg (album_name (track_album t)),
                      (if 1 < Max (disc_number ` set sibs)
                       then sanitize K cfg
                              (ascii ''Disc ''
                                 @ replicate (length (str_nat (Max (disc_number ` set sibs)))
                                                - length (str_nat (disc_number t))) ZERO
                                 @ str_nat (disc_number t))
                       else []),
                      sanitize K cfg
                        (replicate (length (str_nat (Max (track_number ` set sibs)))
                                      - length (str_nat (track_number t))) ZERO
                           @ str_nat (track_number t) @ SPACE # track_name t)]), st')"
    unfolding path album_segments_eq [OF assms(4)] padded_eq by simp
  have 2: "\<forall>u \<in> set sibs.
               length (padded (Max (track_number ` set sibs)) (track_number u))
                 = length (str_nat (Max (track_number ` set sibs)))
             \<and> length (padded (Max (disc_number ` set sibs)) (disc_number u))
                 = length (str_nat (Max (disc_number ` set sibs)))"
    using padded_width_siblings by blast
  have 3: "\<forall>sibs'. set sibs' = set sibs
               \<longrightarrow> album_segments K cfg t sibs' = album_segments K cfg t sibs"
    using album_segments_set by blast
  show ?thesis by (rule conjI [OF 1 conjI [OF 2 3]])
qed

theorem get_track_path_padding_witness:
  "get_track_path cpython_excerpt (listing_world two_discs) plain_config (demo_track 1 7) None
       False True empty_state
     = (Inr (ascii ''out/Demo/Disc 1/07 Song''),
        record_call (GetAlbumTracks demo_album) empty_state)
   \<and> length (padded 12 7) = 2 \<and> length (padded 12 12) = 2 \<and> length (padded 12 3) = 2
   \<and> album_segments cpython_excerpt plain_config (demo_track 1 7) (rev two_discs)
       = album_segments cpython_excerpt plain_config (demo_track 1 7) two_discs"
proof -
  have album: "True \<or> full_structure plain_config"
    by simp
  have artist: "artist_segment cpython_excerpt plain_config (demo_track 1 7) False = Inr []"
    by (simp add: artist_segment_def plain_config_def)
  have sibs: "resolve_siblings (listing_world two_discs) (demo_track 1 7) None empty_state
                = (Inr two_discs, record_call (GetAlbumTracks demo_album) empty_state)"
    by (simp add: resolve_siblings_def listing_world_def demo_world_def demo_track_def)
  have ne: "two_discs \<noteq> []"
    by (simp add: two_discs_def)
  have m7: "demo_track 1 7 \<in> set two_discs"
    and m12: "demo_track 1 12 \<in> set two_discs"
    and m3: "demo_track 2 3 \<in> set two_discs"
    by (simp_all add: two_discs_def)
  have reversed: "set (rev two_discs) = set two_discs"
    by (rule set_rev)
  have numbers: "track_number (demo_track d n) = n" "disc_number (demo_track d n) = d" for d n
    by (simp_all add: demo_track_def)
  have names: "track_name (demo_track 1 7) = ascii ''Song''"
    "album_name (track_album (demo_track 1 7)) = ascii ''Demo''"
    by (simp_all add: demo_track_def demo_album_def)
  have plain: "sanitize cpython_excerpt plain_config s = filter (\<lambda>c. c \<noteq> SLASH) s" for s
    by (simp add: sanitize_def plain_config_def)
  have out: "output_directory plain_config = ascii ''out''"
    by (simp add: plain_config_def)
  note inst = get_track_path_padding [OF album artist sibs ne]
  have joined: "path_join (ascii ''out'') [[], ascii ''Demo'', ascii ''Disc 1'', ascii ''07 Song'']
                  = ascii ''out/Demo/Disc 1/07 Song''"
    by (simp add: path_join_def join_component_def startswith_sep_def endswith_sep_def ascii_def
          SLASH_def)
  have segments:
    "filter (\<lambda>c. c \<noteq> SLASH) (ascii ''Demo'') = ascii ''Demo''"
    "filter (\<lambda>c. c \<noteq> SLASH) (ascii ''Disc '' @ replicate (length [50::nat] - length [49::nat]) ZERO @ [49])
       = ascii ''Disc 1''"
    "filter (\<lambda>c. c \<noteq> SLASH) (replicate (length [49, 50::nat] - length [55::nat]) ZERO @ [55] @ SPACE # ascii ''Song'')
       = ascii ''07 Song''"
    by (simp_all add: ascii_def SLASH_def SPACE_def ZERO_def)
  have path: "get_track_path cpython_excerpt (listing_world two_discs) plain_config (demo_track 1 7) None
       False True empty_state
     = (Inr (ascii ''out/Demo/Disc 1/07 Song''),
        record_call (GetAlbumTracks demo_album) empty_state)"
    unfolding inst [THEN conjunct1] two_discs_maxima numbers names plain out demo_numerals
      segments
    by (simp add: joined)
  have widths: "\<forall>u \<in> set two_discs. length (padded 12 (track_number u)) = 2"
    using inst [THEN conjunct2, THEN conjunct1]
    unfolding two_discs_maxima demo_numerals by simp
  from widths m7 have w7: "length (padded 12 (track_number (demo_track 1 7))) = 2" by (rule bspec)
  from widths m12 have w12: "length (padded 12 (track_number (demo_track 1 12))) = 2" by (rule bspec)
  from widths m3 have w3: "length (padded 12 (track_number (demo_track 2 3))) = 2" by (rule bspec)
  have order: "album_segments cpython_excerpt plain_config (demo_track 1 7) (rev two_discs)
       = album_segments cpython_excerpt plain_config (demo_track 1 7) two_discs"
    using inst [THEN conjunct2, THEN conjunct2] reversed by blast
  from path w7 w12 w3 order show ?thesis
    unfolding numbers by (intro conjI)
qed

subsection \<open>States\<close>

lemma files_record_call [simp]: "files (record_call e st) = files st"
  by (simp add: record_call_def)

lemma trace_record_call [simp]: "trace (record_call e st) = trace st @ [e]"
  by (simp add: record_call_def)

lemma files_log [simp]: "files (log K cfg message indent st) = files st"
  by (simp add: log_def)

lemma trace_log:
  "trace (log K cfg message indent st)
     = trace st @ (if quiet cfg then []
                   else [Print (concat (replicate indent (INDENT K)) @ message)])"
  by (simp add: log_def)

lemma isfile_record_call [simp]: "isfile (record_call e st) p = isfile st p"
  by (simp add: isfile_def)

lemma isfile_log [simp]: "isfile (log K cfg message indent st) p = isfile st p"
  by (simp add: isfile_def)

subsection \<open>Continuations\<close>

lemma continuesI: "trace st' = trace st @ es \<Longrightarrow> list_all P es \<Longrightarrow> continues P st st'"
  by (simp add: continues_def calls_since_def)

lemma continuesD:
  "continues P st st' \<Longrightarrow> trace st' = trace st @ calls_since st st' \<and> list_all P (calls_since st st')"
  unfolding continues_def calls_since_def
  by (metis append_take_drop_id)

lemma continues_refl: "continues P st st"
  by (rule continuesI [of _ _ "[]"]) simp_all

lemma continues_same_trace: "trace st' = trace st \<Longrightarrow> continues P st st'"
  by (rule continuesI [of _ _ "[]"]) simp_all

lemma continues_trans:
  assumes "continues P a b" and "continues P b c"
  shows "continues P a c"
proof -
  from continuesD [OF assms(1)] continuesD [OF assms(2)]
  have "trace c = trace a @ (calls_since a b @ calls_since b c)"
    and "list_all P (calls_since a b @ calls_since b c)" by simp_all
  then show ?thesis by (rule continuesI)
qed

lemma calls_since_trans:
  assumes "continues P a b" and "continues Q b c"
  shows "calls_since a c = calls_since a b @ calls_since b c"
proof -
  from continuesD [OF assms(1)] continuesD [OF assms(2)]
  have "trace c = trace a @ (calls_since a b @ calls_since b c)" by simp
  then show ?thesis by (simp add: calls_since_def [of a c])
qed

lemma calls_since_append: "trace st' = trace st @ es \<Longrightarrow> calls_since st st' = es"
  by (simp add: calls_since_def)

lemma continues_record: "P e \<Longrightarrow> continues P st (record_call e st)"
  by (rule continuesI [of _ _ "[e]"]) simp_all

lemma continues_log: "(\<And>m. P (Print m)) \<Longrightarrow> continues P st (log K cfg message indent st)"
  by (rule continuesI [OF trace_log]) simp

lemma continues_weaken: "continues P a b \<Longrightarrow> (\<And>e. P e \<Longrightarrow> Q e) \<Longrightarrow> continues Q a b"
  unfolding continues_def by (auto simp: list_all_iff)

subsection \<open>get_track_path\<close>


lemma resolve_siblings_fetched:
  "siblings = None \<or> siblings = Some [] \<Longrightarrow>
   resolve_siblings W t siblings st
     = (get_album_tracks W st (track_album t), record_call (GetAlbumTracks (track_album t)) st)"
  by (auto simp: resolve_siblings_def)

lemma resolve_siblings_cases:
  "snd (resolve_siblings W t siblings st) = st
   \<or> snd (resolve_siblings W t siblings st) = record_call (GetAlbumTracks (track_album t)) st"
  by (simp add: resolve_siblings_def Let_def split: option.splits list.splits)

lemma get_track_path_state:
  "snd (get_track_path K W cfg t siblings include_artist include_album st)
     = (if (include_album \<or> full_structure cfg)
           \<and> (\<exists>a. artist_segment K cfg t include_artist = Inr a)
        then snd (resolve_siblings W t siblings st) else st)"
  by (auto simp: get_track_path_def split: sum.splits prod.splits)

lemma get_track_path_cases:
  "snd (get_track_path K W cfg t siblings include_artist include_album st) = st
   \<or> snd (get_track_path K W cfg t siblings include_artist include_album st)
        = record_call (GetAlbumTracks (track_album t)) st"
  unfolding get_track_path_state using resolve_siblings_cases [of W t siblings st] by auto

lemma files_get_track_path [simp]:
  "files (snd (get_track_path K W cfg t siblings include_artist include_album st)) = files st"
  using get_track_path_cases [of K W cfg t siblings include_artist include_album st] by auto

lemma continues_get_track_path:
  assumes "\<And>a. P (GetAlbumTracks a)"
  shows "continues P st (snd (get_track_path K W cfg t siblings include_artist include_album st))"
  using get_track_path_cases [of K W cfg t siblings include_artist include_album st]
    continues_refl [of P st] continues_record [of P "GetAlbumTracks (track_album t)" st] assms
  by auto


subsection \<open>The media locator\<close>

lemma files_before_retry [simp]:
  "files (before_authenticate K cfg t indent st) = files st"
  "files (before_retry K cfg t indent st) = files st"
  by (simp_all add: before_authenticate_def before_retry_def)

lemma trace_before_retry:
  "trace (before_retry K cfg t indent st)
     = trace st @ GetMedia t
         # (if quiet cfg then []
            else [Print (concat (replicate indent (INDENT K)) @ too_many_requests_message)])
         @ [Authenticate]"
  by (simp add: before_authenticate_def before_retry_def trace_log)

lemma request_media_cases:
  "snd (request_media K W cfg t indent st) = record_call (GetMedia t) st
   \<or> snd (request_media K W cfg t indent st) = before_retry K cfg t indent st
   \<or> snd (request_media K W cfg t indent st)
        = record_call (GetMedia t) (before_retry K cfg t indent st)"
  by (simp add: request_media_def split: sum.splits option.splits)

lemma files_request_media [simp]:
  "files (snd (request_media K W cfg t indent st)) = files st"
  using request_media_cases [of K W cfg t indent st] by auto

lemma continues_before_retry:
  assumes "\<And>m. P (Print m)" "\<And>t. P (GetMedia t)" "P Authenticate"
  shows "continues P st (before_retry K cfg t indent st)"
  by (rule continuesI [OF trace_before_retry]) (simp add: assms)

lemma continues_request_media:
  assumes "\<And>m. P (Print m)" "\<And>t. P (GetMedia t)" "P Authenticate"
  shows "continues P st (snd (request_media K W cfg t indent st))"
proof -
  note r = continues_before_retry [of P st K cfg t indent, OF assms]
  from request_media_cases [of K W cfg t indent st] show ?thesis
  proof (elim disjE)
    assume "snd (request_media K W cfg t indent st) = record_call (GetMedia t) st"
    then show ?thesis using continues_record [of P "GetMedia t" st] assms by simp
  next
    assume "snd (request_media K W cfg t indent st) = before_retry K cfg t indent st"
    then show ?thesis using r by simp
  next
    assume "snd (request_media K W cfg t indent st)
              = record_call (GetMedia t) (before_retry K cfg t indent st)"
    then show ?thesis
      using continues_trans [OF r continues_record [of P "GetMedia t"]] assms by simp
  qed
qed

lemma acquire_media_state:
  "snd (acquire_media K W cfg t final indent st) = snd (request_media K W cfg t indent st)
   \<or> snd (acquire_media K W cfg t final indent st)
        = log K cfg (not_available_message final) indent (snd (request_media K W cfg t indent st))"
  by (simp add: acquire_media_def split: sum.splits option.splits prod.splits)

lemma files_acquire_media [simp]:
  "files (snd (acquire_media K W cfg t final indent st)) = files st"
  using acquire_media_state [of K W cfg t final indent st] by auto

lemma continues_acquire_media:
  assumes "\<And>m. P (Print m)" "\<And>t. P (GetMedia t)" "P Authenticate"
  shows "continues P st (snd (acquire_media K W cfg t final indent st))"
proof -
  note r = continues_request_media [of P st K W cfg t indent, OF assms]
  from acquire_media_state [of K W cfg t final indent st] show ?thesis
  proof
    assume "snd (acquire_media K W cfg t final indent st)
              = snd (request_media K W cfg t indent st)"
    with r show ?thesis by simp
  next
    assume "snd (acquire_media K W cfg t final indent st)
        = log K cfg (not_available_message final) indent (snd (request_media K W cfg t indent st))"
    with continues_trans [OF r continues_log [of P]] assms show ?thesis by simp
  qed
qed

subsection \<open>The transfer\<close>

lemma files_write_chunks_other:
  "q \<noteq> p \<Longrightarrow> files (write_chunks p cs st) q = files st q"
  by (induction cs arbitrary: st) (simp_all add: file_write_def)

lemma isfile_write_chunks:
  "isfile st p \<Longrightarrow> isfile (write_chunks p cs st) p"
  by (induction cs arbitrary: st) (simp_all add: file_write_def isfile_def)

lemma trace_write_chunks [simp]: "trace (write_chunks p cs st) = trace st"
  by (induction cs arbitrary: st) (simp_all add: file_write_def)

lemma os_makedirs_state [simp]: "snd (os_makedirs W p st) = record_call (Makedirs p) st"
  by (simp add: os_makedirs_def)

lemma open_wb_result:
  "open_wb W p st = (r, st') \<Longrightarrow>
     trace st' = trace st @ [OpenWrite p]
     \<and> (\<forall>q. q \<noteq> p \<longrightarrow> files st' q = files st q)
     \<and> (r = None \<longrightarrow> isfile st' p)"
  by (auto simp: open_wb_def isfile_def split: option.splits)

lemma files_stream_payload_other:
  "q \<noteq> temporary \<Longrightarrow> files (snd (stream_payload W cfg temporary final m st)) q = files st q"
  by (auto simp: stream_payload_def os_makedirs_def Let_def files_write_chunks_other
        split: sum.splits option.splits prod.splits content_length.splits
        dest!: open_wb_result)

lemma stream_payload_success:
  "stream_payload W cfg temporary final m st = (None, st') \<Longrightarrow> isfile st' temporary"
  by (auto simp: stream_payload_def os_makedirs_def Let_def
        split: sum.splits option.splits prod.splits content_length.splits if_splits
        dest!: open_wb_result intro: isfile_write_chunks)

lemma trace_stream_payload:
  "trace (snd (stream_payload W cfg temporary final m st)) = trace st @ [Makedirs (dirname final)]
   \<or> trace (snd (stream_payload W cfg temporary final m st))
        = trace st @ [Makedirs (dirname final), HttpGet (media_url m)]
   \<or> trace (snd (stream_payload W cfg temporary final m st))
        = trace st @ [Makedirs (dirname final), HttpGet (media_url m), OpenWrite temporary]"
  by (auto simp: stream_payload_def os_makedirs_def Let_def
        split: sum.splits option.splits prod.splits content_length.splits
        dest!: open_wb_result)

lemma continues_stream_payload:
  assumes "\<And>p. P (Makedirs p)" "\<And>u. P (HttpGet u)" "\<And>p. P (OpenWrite p)"
  shows "continues P st (snd (stream_payload W cfg temporary final m st))"
  using trace_stream_payload [of W cfg temporary final m st]
  by (elim disjE) (erule continuesI, simp add: assms)+

subsection \<open>Decryption and metadata\<close>

lemma apply_transform_trace [simp]: "trace (snd (apply_transform f p st)) = trace st"
  by (simp add: apply_transform_def split: option.splits)

lemma apply_transform_files_other:
  "q \<noteq> p \<Longrightarrow> files (snd (apply_transform f p st)) q = files st q"
  by (simp add: apply_transform_def split: option.splits)

lemma apply_transform_isfile [simp]: "isfile (snd (apply_transform f p st)) q = isfile st q"
  by (simp add: apply_transform_def isfile_def split: option.splits)

lemma decrypt_files_other:
  "q \<noteq> temporary \<Longrightarrow> files (snd (decrypt K cfg temporary m indent st)) q = files st q"
  by (simp add: decrypt_def apply_transform_files_other split: option.splits)

lemma decrypt_isfile [simp]:
  "isfile (snd (decrypt K cfg temporary m indent st)) q = isfile st q"
  by (simp add: decrypt_def split: option.splits)

lemma trace_decrypt:
  "trace (snd (decrypt K cfg temporary m indent st))
     = trace st @ (case decryptor m of None \<Rightarrow> []
                   | Some d \<Rightarrow> (if quiet cfg then []
                                else [Print (concat (replicate indent (INDENT K))
                                               @ ascii ''Decrypting...'')])
                               @ [Decrypt temporary])"
  by (simp add: decrypt_def trace_log split: option.splits)

lemma continues_decrypt:
  assumes "\<And>m. P (Print m)" "\<And>p. P (Decrypt p)"
  shows "continues P st (snd (decrypt K cfg temporary m indent st))"
  by (rule continuesI [OF trace_decrypt]) (simp add: assms split: option.splits)

lemma fetch_cover_cases:
  "snd (fetch_cover W t st) = st
   \<or> (\<exists>url. snd (fetch_cover W t st) = record_call (HttpGet url) st)"
  by (auto simp: fetch_cover_def split: option.splits sum.splits)

lemma files_fetch_cover [simp]: "files (snd (fetch_cover W t st)) = files st"
  using fetch_cover_cases [of W t st] by auto

lemma continues_fetch_cover:
  assumes "\<And>u. P (HttpGet u)"
  shows "continues P st (snd (fetch_cover W t st))"
  using fetch_cover_cases [of W t st] continues_refl [of P st] continues_record [of P _ st] assms
  by auto

lemma resolve_metadata_files_other:
  "q \<noteq> path \<Longrightarrow> files (snd (resolve_metadata K W cfg t path indent st)) q = files st q"
proof -
  assume q: "q \<noteq> path"
  let ?c = "fetch_cover W t (log K cfg (ascii ''Resolving metadata...'') indent st)"
  have c: "files (snd ?c) q = files st q" by simp
  show ?thesis
    using c by (cases ?c)
      (auto simp: resolve_metadata_def apply_transform_files_other [OF q]
         split: sum.splits option.splits)
qed

lemma resolve_metadata_isfile [simp]:
  "isfile (snd (resolve_metadata K W cfg t path indent st)) q = isfile st q"
proof -
  let ?c = "fetch_cover W t (log K cfg (ascii ''Resolving metadata...'') indent st)"
  have c: "isfile (snd ?c) q = isfile st q" by (simp add: isfile_def)
  show ?thesis
    using c by (cases ?c) (auto simp: resolve_metadata_def split: sum.splits option.splits)
qed

lemma continues_resolve_metadata:
  assumes "\<And>m. P (Print m)" "\<And>u. P (HttpGet u)" "\<And>p. P (Embed p)"
  shows "continues P st (snd (resolve_metadata K W cfg t path indent st))"
proof -
  let ?l = "log K cfg (ascii ''Resolving metadata...'') indent st"
  let ?c = "fetch_cover W t ?l"
  have a: "continues P st (snd ?c)"
    by (rule continues_trans [OF continues_log continues_fetch_cover]) (rule assms)+
  have "snd (resolve_metadata K W cfg t path indent st) = snd ?c
        \<or> trace (snd (resolve_metadata K W cfg t path indent st)) = trace (snd ?c) @ [Embed path]"
    by (cases ?c) (auto simp: resolve_metadata_def split: sum.splits option.splits)
  then show ?thesis
  proof
    assume "snd (resolve_metadata K W cfg t path indent st) = snd ?c"
    with a show ?thesis by simp
  next
    assume "trace (snd (resolve_metadata K W cfg t path indent st)) = trace (snd ?c) @ [Embed path]"
    then have "continues P (snd ?c) (snd (resolve_metadata K W cfg t path indent st))"
      by (rule continuesI) (simp add: assms)
    with a show ?thesis by (rule continues_trans)
  qed
qed

subsection \<open>Finalization\<close>

lemma temporary_ne_final: "temporary_path K p t \<noteq> final_path p t"
proof
  assume "temporary_path K p t = final_path p t"
  then have "length (temporary_path K p t) = length (final_path p t)" by simp
  then show False by (simp add: temporary_path_def final_path_def)
qed

lemma os_rename_result:
  "os_rename W src dst st = (r, st') \<Longrightarrow>
     trace st' = trace st @ [Rename src dst]
     \<and> (case r of
          Some e \<Rightarrow> files st' = files st
        | None \<Rightarrow> (\<exists>b. files st src = Some b \<and> os_error W st (Rename src dst) = None
                       \<and> files st' = (files st)(src := None, dst \<mapsto> b)))"
  by (auto simp: os_rename_def split: option.splits)

lemma os_remove_result:
  "os_remove W p st = (r, st') \<Longrightarrow>
     trace st' = trace st @ [Remove p]
     \<and> (case r of
          Some e \<Rightarrow> files st' = files st
        | None \<Rightarrow> files st p \<noteq> None \<and> os_error W st (Remove p) = None
                  \<and> files st' = (files st)(p := None))"
  by (auto simp: os_remove_def split: option.splits)

lemma os_rename_ok:
  "files st src = Some b \<Longrightarrow> os_error W st (Rename src dst) = None \<Longrightarrow>
   os_rename W src dst st
     = (None, record_call (Rename src dst) (st\<lparr>files := (files st)(src := None, dst \<mapsto> b)\<rparr>))"
  by (simp add: os_rename_def)

lemma os_remove_ok:
  "files st p = Some b \<Longrightarrow> os_error W st (Remove p) = None \<Longrightarrow>
   os_remove W p st = (None, record_call (Remove p) (st\<lparr>files := (files st)(p := None)\<rparr>))"
  by (simp add: os_remove_def)

lemma finish_eq:
  "finish (r, st) = (out, st') \<longleftrightarrow> st' = st \<and> out = (case r of None \<Rightarrow> Returned | Some e \<Rightarrow> Raised e)"
  by (auto simp: finish_def split: option.splits)

lemma finish_rename:
  assumes "finish (os_rename W src dst st) = (out, st')"
  shows "trace st' = trace st @ [Rename src dst]
         \<and> (os_rename W src dst st = (None, st') \<and> out = Returned
            \<or> files st' = files st \<and> out \<noteq> Returned)"
proof (cases "os_rename W src dst st")
  case (Pair r s)
  with assms have s: "s = st'" and out: "out = (case r of None \<Rightarrow> Returned | Some e \<Rightarrow> Raised e)"
    by (simp_all add: finish_eq)
  from os_rename_result [OF Pair] Pair s out show ?thesis
    by (cases r) auto
qed

lemma finish_remove:
  assumes "finish (os_remove W p st) = (out, st')"
  shows "trace st' = trace st @ [Remove p] \<and> (\<forall>q. q \<noteq> p \<longrightarrow> files st' q = files st q)"
proof (cases "os_remove W p st")
  case (Pair r s)
  with assms have s: "s = st'" by (simp add: finish_eq)
  from os_remove_result [OF Pair] s show ?thesis
    by (cases r) auto
qed

text \<open>What \<open>finalize\<close> does, by its four ways out.\<close>

lemma finalize_cases:
  assumes "finalize K W cfg t temporary final indent st = (out, st')"
  obtains
    (skipped) "skip_metadata cfg" "finish (os_rename W temporary final st) = (out, st')"
  | (embedded) s where "\<not> skip_metadata cfg"
      "resolve_metadata K W cfg t temporary indent st = (None, s)"
      "finish (os_rename W temporary final s) = (out, st')"
  | (invalid) s where "\<not> skip_metadata cfg"
      "resolve_metadata K W cfg t temporary indent st = (Some InvalidFileError, s)"
      "finish (os_remove W temporary (log K cfg (invalid_file_message final) indent s)) = (out, st')"
  | (failed) e where "\<not> skip_metadata cfg" "e \<noteq> InvalidFileError"
      "resolve_metadata K W cfg t temporary indent st = (Some e, st')" "out = Raised e"
  using assms
  by (cases "resolve_metadata K W cfg t temporary indent st")
     (auto simp: finalize_def split: if_splits option.splits)





subsection \<open>download_track\<close>

lemma download_track_unfold:
  assumes "get_track_path K W cfg t siblings include_artist include_album st = (Inr p, st')"
  shows "download_track K W cfg t siblings include_artist include_album indent st
           = (if isfile st' (final_path p t)
              then (Returned, log K cfg (already_exists_message (final_path p t)) indent st')
              else (case acquire_media K W cfg t (final_path p t) indent st' of
                      (Inl ended, st'') \<Rightarrow> (ended, st'')
                    | (Inr m, st'') \<Rightarrow>
                        transfer K W cfg t (temporary_path K p t) (final_path p t) indent m st''))"
  using assms by (simp add: download_track_def Let_def)

lemma get_track_path_files:
  "get_track_path K W cfg t siblings include_artist include_album st = (r, st') \<Longrightarrow>
   files st' = files st"
  using files_get_track_path [of K W cfg t siblings include_artist include_album st] by simp

lemma acquire_media_files:
  "acquire_media K W cfg t final indent st = (r, st') \<Longrightarrow> files st' = files st"
  using files_acquire_media [of K W cfg t final indent st] by simp


lemma pair_fstI: "fst x = a \<Longrightarrow> x = (a, snd x)"
  by (cases x) simp

lemma demo_paths:
  "final_path (ascii ''out/Song'') (demo_track 1 7) = demo_final"
  "temporary_path cpython_excerpt (ascii ''out/Song'') (demo_track 1 7) = demo_temporary"
  by code_simp+


subsection \<open>The artist segment\<close>

text \<open>
  Claim C10: when the artist segment is included, \<open>get_track_path\<close> takes it from the
  first artist of the track's album; the track's own artists play no part; and with an
  album that has no artist the call raises \<open>IndexError\<close> before anything else is done.
\<close>

theorem artist_segment_from_album:
  assumes "include_artist \<or> full_structure cfg"
  shows "(album_artists (track_album t) = [] \<longrightarrow>
            get_track_path K W cfg t siblings include_artist include_album st
              = (Inl IndexError, st)
            \<and> download_track K W cfg t siblings include_artist include_album indent st
              = (Raised IndexError, st))
         \<and> (\<forall>a rest. album_artists (track_album t) = a # rest \<longrightarrow>
               artist_segment K cfg t include_artist = Inr (sanitize K cfg (artist_name a))
               \<and> get_track_path K W cfg t siblings include_artist include_album st
                 = (if include_album \<or> full_structure cfg then
                      (case resolve_siblings W t siblings st of
                         (Inl e, st') \<Rightarrow> (Inl e, st')
                       | (Inr sibs, st') \<Rightarrow>
                           (case album_segments K cfg t sibs of
                              Inl e \<Rightarrow> (Inl e, st')
                            | Inr (album_path, disc_path, file_path) \<Rightarrow>
                                (Inr (path_join (output_directory cfg)
                                        [sanitize K cfg (artist_name a), album_path,
                                         disc_path, file_path]), st')))
                    else
                      (Inr (path_join (output_directory cfg)
                              [sanitize K cfg (artist_name a), [], [],
                               sanitize K cfg (track_name t)]), st)))
         \<and> (\<forall>others.
               get_track_path K W cfg (t\<lparr>track_artists := others\<rparr>) siblings include_artist
                 include_album st
               = get_track_path K W cfg t siblings include_artist include_album st)"
proof -
  have empty: "get_track_path K W cfg t siblings include_artist include_album st
              = (Inl IndexError, st)
            \<and> download_track K W cfg t siblings include_artist include_album indent st
              = (Raised IndexError, st)"
    if "album_artists (track_album t) = []"
    using that assms by (simp add: get_track_path_def download_track_def artist_segment_def)
  have first: "artist_segment K cfg t include_artist = Inr (sanitize K cfg (artist_name a))
               \<and> get_track_path K W cfg t siblings include_artist include_album st
                 = (if include_album \<or> full_structure cfg then
                      (case resolve_siblings W t siblings st of
                         (Inl e, st') \<Rightarrow> (Inl e, st')
                       | (Inr sibs, st') \<Rightarrow>
                           (case album_segments K cfg t sibs of
                              Inl e \<Rightarrow> (Inl e, st')
                            | Inr (album_path, disc_path, file_path) \<Rightarrow>
                                (Inr (path_join (output_directory cfg)
                                        [sanitize K cfg (artist_name a), album_path,
                                         disc_path, file_path]), st')))
                    else
                      (Inr (path_join (output_directory cfg)
                              [sanitize K cfg (artist_name a), [], [],
                               sanitize K cfg (track_name t)]), st))"
    if "album_artists (track_album t) = a # rest" for a rest
    using that assms by (simp add: get_track_path_def artist_segment_def)
  have own: "get_track_path K W cfg (t\<lparr>track_artists := others\<rparr>) siblings include_artist
                 include_album st
               = get_track_path K W cfg t siblings include_artist include_album st" for others
  proof -
    have a: "artist_segment K cfg (t\<lparr>track_artists := others\<rparr>) include_artist
               = artist_segment K cfg t include_artist"
      by (simp add: artist_segment_def)
    have b: "resolve_siblings W (t\<lparr>track_artists := others\<rparr>) siblings st
               = resolve_siblings W t siblings st"
      by (simp add: resolve_siblings_def)
    have c: "album_segments K cfg (t\<lparr>track_artists := others\<rparr>) sibs
               = album_segments K cfg t sibs" for sibs
      by (simp add: album_segments_def split: sum.splits)
    have d: "track_name (t\<lparr>track_artists := others\<rparr>) = track_name t"
      by simp
    show ?thesis
      unfolding get_track_path_def a b c d ..
  qed
  from empty first own show ?thesis by blast
qed

theorem artist_segment_from_album_witness:
  "get_track_path cpython_excerpt (listing_world []) plain_config orphan_track None True False
     empty_state = (Inl IndexError, empty_state)
   \<and> track_artists orphan_track = [demo_artist]
   \<and> artist_segment cpython_excerpt plain_config (demo_track 1 7) True = Inr (ascii ''Band'')
   \<and> fst (get_track_path cpython_excerpt (listing_world []) plain_config (demo_track 1 7) None
            True False empty_state) = Inr (ascii ''out/Band/Song'')"
proof -
  have included: "True \<or> full_structure plain_config"
    by simp
  have none: "album_artists (track_album orphan_track) = []"
    by (simp add: orphan_track_def orphan_album_def)
  have one: "album_artists (track_album (demo_track 1 7)) = demo_artist # []"
    by (simp add: demo_track_def demo_album_def)
  have band: "sanitize cpython_excerpt plain_config (artist_name demo_artist) = ascii ''Band''"
    by code_simp
  have own: "track_artists orphan_track = [demo_artist]"
    by (simp add: orphan_track_def)
  have path: "fst (get_track_path cpython_excerpt (listing_world []) plain_config
                     (demo_track 1 7) None True False empty_state) = Inr (ascii ''out/Band/Song'')"
    by code_simp
  note orphan = artist_segment_from_album [where include_artist = True and cfg = plain_config
      and t = orphan_track and K = cpython_excerpt and W = "listing_world []"
      and siblings = None and include_album = False and st = empty_state and indent = 0,
      OF included, THEN conjunct1, THEN mp, OF none, THEN conjunct1]
  note album = artist_segment_from_album [where include_artist = True and cfg = plain_config
      and t = "demo_track 1 7" and K = cpython_excerpt and W = "listing_world []"
      and siblings = None and include_album = False and st = empty_state and indent = 0,
      OF included, THEN conjunct2, THEN conjunct1, THEN spec, THEN spec, THEN mp, OF one,
      THEN conjunct1]
  from orphan own album path show ?thesis
    unfolding band by (intro conjI)
qed

subsection \<open>A file that is already there\<close>

lemma get_track_path_success_state:
  assumes "get_track_path K W cfg t siblings include_artist include_album st = (Inr p, st')"
  shows "st' = (if (include_album \<or> full_structure cfg) \<and> (siblings = None \<or> siblings = Some [])
               then record_call (GetAlbumTracks (track_album t)) st else st)"
proof -
  from assms have "snd (get_track_path K W cfg t siblings include_artist include_album st) = st'"
    and "\<exists>a. artist_segment K cfg t include_artist = Inr a"
    by (auto simp: get_track_path_def split: sum.splits)
  then have "st' = (if include_album \<or> full_structure cfg
                    then snd (resolve_siblings W t siblings st) else st)"
    unfolding get_track_path_state by simp
  then show ?thesis
    by (simp add: resolve_siblings_def Let_def split: option.splits list.splits)
qed

text \<open>
  Claim C1, as amended: when a file is already at the final path, \<open>download_track\<close> logs
  the skip and returns; it requests no media locator, does not authenticate, transfers
  nothing and changes no file. The only call it makes before the log line is the listing
  of the album's tracks, made by \<open>get_track_path\<close> exactly when album inclusion is active
  and no non-empty sibling list was passed in.
\<close>

theorem existing_file_skipped:
  assumes path: "get_track_path K W cfg t siblings include_artist include_album st = (Inr p, st')"
    and present: "isfile st (final_path p t)"
  shows "download_track K W cfg t siblings include_artist include_album indent st
           = (Returned, log K cfg (already_exists_message (final_path p t)) indent st')
         \<and> files (log K cfg (already_exists_message (final_path p t)) indent st') = files st
         \<and> calls_since st (log K cfg (already_exists_message (final_path p t)) indent st')
             = (if (include_album \<or> full_structure cfg)
                   \<and> (siblings = None \<or> siblings = Some [])
                then [GetAlbumTracks (track_album t)] else [])
               @ (if quiet cfg then []
                  else [Print (concat (replicate indent (INDENT K))
                                 @ already_exists_message (final_path p t))])"
proof -
  from get_track_path_files [OF path] have f: "files st' = files st" .
  with present have "isfile st' (final_path p t)" by (simp add: isfile_def)
  with download_track_unfold [OF path, of indent]
  have run: "download_track K W cfg t siblings include_artist include_album indent st
           = (Returned, log K cfg (already_exists_message (final_path p t)) indent st')"
    by simp
  have "trace (log K cfg (already_exists_message (final_path p t)) indent st')
          = trace st @ ((if (include_album \<or> full_structure cfg)
                   \<and> (siblings = None \<or> siblings = Some [])
                then [GetAlbumTracks (track_album t)] else [])
               @ (if quiet cfg then []
                  else [Print (concat (replicate indent (INDENT K))
                                 @ already_exists_message (final_path p t))]))"
    unfolding trace_log get_track_path_success_state [OF path] by simp
  from calls_since_append [OF this] run f show ?thesis by simp
qed

theorem existing_file_skipped_witness:
  "download_track cpython_excerpt (listing_world []) plain_config (demo_track 1 7) None False
      False 0 present_state
     = (Returned, log cpython_excerpt plain_config (already_exists_message demo_final) 0
                    present_state)
   \<and> files (log cpython_excerpt plain_config (already_exists_message demo_final) 0
               present_state) = files present_state
   \<and> calls_since present_state
        (log cpython_excerpt plain_config (already_exists_message demo_final) 0 present_state)
       = [Print (ascii ''Skipping download of Song.mp4; it already exists.'')]"
proof -
  have path: "get_track_path cpython_excerpt (listing_world []) plain_config (demo_track 1 7)
                None False False present_state = (Inr (ascii ''out/Song''), present_state)"
    by (simp add: get_track_path_def artist_segment_def plain_config_def sanitize_def
          demo_track_def path_join_def join_component_def startswith_sep_def endswith_sep_def
          ascii_def SLASH_def)
  have present: "isfile present_state (final_path (ascii ''out/Song'') (demo_track 1 7))"
    by code_simp
  have config: "\<not> (False \<or> full_structure plain_config)" "\<not> quiet plain_config"
    by (simp_all add: plain_config_def)
  have message: "concat (replicate 0 (INDENT cpython_excerpt)) @ already_exists_message demo_final
                   = ascii ''Skipping download of Song.mp4; it already exists.''"
    by code_simp
  from existing_file_skipped [OF path present, of 0] show ?thesis
    unfolding demo_paths using config message by simp
qed

text \<open>
  Claim C1, as stated, fails under the full directory structure when no sibling list is
  passed in, as in \<open>handle_track\<close>: the file is there and the download is skipped, but
  only after the album's tracks have been listed over the network.
\<close>

theorem existing_file_listing_fetch:
  "isfile listed_state listed_final
   \<and> fst (download_track cpython_excerpt (listing_world [demo_track 1 7]) full_config
            (demo_track 1 7) None False False 0 listed_state) = Returned
   \<and> trace (snd (download_track cpython_excerpt (listing_world [demo_track 1 7]) full_config
                   (demo_track 1 7) None False False 0 listed_state))
       = [GetAlbumTracks demo_album,
          Print (ascii ''Skipping download of 7 Song.mp4; it already exists.'')]
   \<and> network_call (GetAlbumTracks demo_album)"
  by code_simp

subsection \<open>The end of a download\<close>

lemma download_track_transfer:
  assumes "get_track_path K W cfg t siblings include_artist include_album st = (Inr p, st')"
    and "\<not> isfile st (final_path p t)"
    and "acquire_media K W cfg t (final_path p t) indent st' = (Inr m, s1)"
  shows "download_track K W cfg t siblings include_artist include_album indent st
           = transfer K W cfg t (temporary_path K p t) (final_path p t) indent m s1"
proof -
  from get_track_path_files [OF assms(1)] assms(2)
  have "\<not> isfile st' (final_path p t)" by (simp add: isfile_def)
  with download_track_unfold [OF assms(1), of indent] assms(3) show ?thesis by simp
qed

lemma decrypt_success:
  assumes "decrypt K cfg temporary m indent st = (None, st')" and "isfile st temporary"
  shows "isfile st' temporary"
proof -
  from assms(1) have "snd (decrypt K cfg temporary m indent st) = st'" by simp
  with decrypt_isfile [of K cfg temporary m indent st temporary] assms(2) show ?thesis by simp
qed

lemma resolve_metadata_keeps:
  assumes "resolve_metadata K W cfg t path indent st = (r, st')" and "isfile st q"
  shows "isfile st' q"
proof -
  from assms(1) have "snd (resolve_metadata K W cfg t path indent st) = st'" by simp
  with resolve_metadata_isfile [of K W cfg t path indent st q] assms(2) show ?thesis by simp
qed

lemma independent_of_metadata:
  fixes W :: world
  defines "W' \<equiv> \<lambda>c f g. W\<lparr>http_cover := c, resolve_mp4_metadata := f, resolve_flac_metadata := g\<rparr>"
  assumes "skip_metadata cfg"
  shows "download_track K (W' c f g) cfg t siblings include_artist include_album indent st
           = download_track K W cfg t siblings include_artist include_album indent st"
proof -
  have path: "get_track_path K (W' c f g) cfg t siblings include_artist include_album st
                = get_track_path K W cfg t siblings include_artist include_album st"
    by (simp add: get_track_path_def resolve_siblings_def W'_def cong: sum.case_cong option.case_cong prod.case_cong if_cong)
  have acquire: "acquire_media K (W' c f g) cfg t final indent s
                   = acquire_media K W cfg t final indent s" for final s
    by (simp add: acquire_media_def request_media_def W'_def cong: sum.case_cong option.case_cong prod.case_cong if_cong)
  have stream: "stream_payload (W' c f g) cfg temporary final m s
                  = stream_payload W cfg temporary final m s" for temporary final m s
    by (simp add: stream_payload_def os_makedirs_def open_wb_def W'_def cong: sum.case_cong option.case_cong prod.case_cong if_cong)
  have finalize: "finalize K (W' c f g) cfg t temporary final indent s
                    = finalize K W cfg t temporary final indent s" for temporary final s
    using assms(2) by (simp add: finalize_def os_rename_def W'_def cong: sum.case_cong option.case_cong prod.case_cong if_cong)
  have transfer: "transfer K (W' c f g) cfg t temporary final indent m s
                    = transfer K W cfg t temporary final indent m s" for temporary final m s
    by (simp add: transfer_def stream finalize cong: sum.case_cong option.case_cong prod.case_cong if_cong)
  show ?thesis
    by (simp add: download_track_def path acquire transfer cong: sum.case_cong option.case_cong prod.case_cong if_cong)
qed

text \<open>
  Claim C9: with skip-metadata set, \<open>download_track\<close> does not depend on the cover request
  or on the embedders, so it calls neither; once the payload is streamed and decrypted,
  the rename is the only call left, and the temporary file becomes the final file with
  what it holds.
\<close>

theorem skip_metadata_finalizes:
  assumes skip: "skip_metadata cfg"
    and path: "get_track_path K W cfg t siblings include_artist include_album st = (Inr p, st')"
    and absent: "\<not> isfile st (final_path p t)"
    and acquire: "acquire_media K W cfg t (final_path p t) indent st' = (Inr m, s1)"
    and stream: "stream_payload W cfg (temporary_path K p t) (final_path p t) m s1 = (None, s2)"
    and decrypt: "decrypt K cfg (temporary_path K p t) m indent s2 = (None, s3)"
    and rename: "os_error W s3 (Rename (temporary_path K p t) (final_path p t)) = None"
  shows "(\<exists>b. files s3 (temporary_path K p t) = Some b
            \<and> download_track K W cfg t siblings include_artist include_album indent st
                = (Returned,
                   record_call (Rename (temporary_path K p t) (final_path p t))
                     (s3\<lparr>files := (files s3)(temporary_path K p t := None,
                                              final_path p t \<mapsto> b)\<rparr>)))
         \<and> (\<forall>c f g.
               download_track K
                 (W\<lparr>http_cover := c, resolve_mp4_metadata := f, resolve_flac_metadata := g\<rparr>)
                 cfg t siblings include_artist include_album indent st
               = download_track K W cfg t siblings include_artist include_album indent st)"
proof -
  let ?temp = "temporary_path K p t" and ?final = "final_path p t"
  from decrypt_success [OF decrypt stream_payload_success [OF stream]]
  obtain b where b: "files s3 ?temp = Some b" by (auto simp: isfile_def)
  have "download_track K W cfg t siblings include_artist include_album indent st
          = transfer K W cfg t ?temp ?final indent m s1"
    by (rule download_track_transfer [OF path absent acquire])
  also have "\<dots> = finish (os_rename W ?temp ?final s3)"
    using skip stream decrypt by (simp add: transfer_def finalize_def)
  also have "\<dots> = (Returned, record_call (Rename ?temp ?final)
                        (s3\<lparr>files := (files s3)(?temp := None, ?final \<mapsto> b)\<rparr>))"
    unfolding os_rename_ok [OF b rename] by (simp add: finish_def)
  finally have run: "download_track K W cfg t siblings include_artist include_album indent st
      = (Returned, record_call (Rename ?temp ?final)
                        (s3\<lparr>files := (files s3)(?temp := None, ?final \<mapsto> b)\<rparr>))" .
  from b run independent_of_metadata [OF skip] show ?thesis by blast
qed

subsection \<open>Phases that succeed\<close>

lemma acquire_media_ok:
  "get_media W st t = Inr m \<Longrightarrow>
   acquire_media K W cfg t final indent st = (Inr m, record_call (GetMedia t) st)"
  by (simp add: acquire_media_def request_media_def)

lemma stream_payload_ok:
  assumes "dirname final \<noteq> []"
    and "os_error W st (Makedirs (dirname final)) = None"
    and "http_stream W (record_call (Makedirs (dirname final)) st) (media_url m) = Inr request"
    and "os_error W (record_call (HttpGet (media_url m))
                       (record_call (Makedirs (dirname final)) st)) (OpenWrite temporary) = None"
    and "stream_error request = None"
    and "quiet cfg \<or> (\<exists>n. length_header request = Length n)"
  shows "stream_payload W cfg temporary final m st
           = (None, write_chunks temporary (chunks request)
                      (snd (open_wb W temporary
                              (record_call (HttpGet (media_url m))
                                 (record_call (Makedirs (dirname final)) st)))))"
  using assms by (auto simp: stream_payload_def os_makedirs_def open_wb_def Let_def)

lemma decrypt_none: "decryptor m = None \<Longrightarrow> decrypt K cfg temporary m indent st = (None, st)"
  by (simp add: decrypt_def)

lemma resolve_metadata_embed:
  assumes "cover_url (track_album t) = None"
    and "embedder W (extension t) = Some resolve"
    and "isfile st path"
  shows "resolve_metadata K W cfg t path indent st
           = apply_transform (resolve cfg t None) path
               (record_call (Embed path) (log K cfg (ascii ''Resolving metadata...'') indent st))"
  using assms by (simp add: resolve_metadata_def fetch_cover_def)

lemma apply_transform_present:
  "isfile st p \<Longrightarrow> fst (apply_transform f p st) = fst (f (the (files st p)))"
  by (auto simp: apply_transform_def isfile_def)

lemma demo_path:
  assumes "\<not> full_structure cfg" "\<not> nice_format cfg" "output_directory cfg = ascii ''out''"
  shows "get_track_path K W cfg (demo_track d n) None False False st
           = (Inr (ascii ''out/Song''), st)"
  using assms
  by (simp add: get_track_path_def artist_segment_def sanitize_def
        demo_track_def path_join_def join_component_def startswith_sep_def endswith_sep_def
        ascii_def SLASH_def)

lemma demo_final_parts:
  "dirname demo_final = ascii ''out''" "dirname demo_final \<noteq> []"
  "basename demo_final = ascii ''Song.mp4''"
  by code_simp+

lemma demo_track_parts:
  "extension (demo_track d n) = ascii ''mp4''"
  "cover_url (track_album (demo_track d n)) = None"
  by (simp_all add: demo_track_def demo_album_def)

lemma demo_final_paths:
  "final_path (ascii ''out/Song'') (demo_track d n) = demo_final"
  "temporary_path cpython_excerpt (ascii ''out/Song'') (demo_track d n) = demo_temporary"
  by (simp_all add: final_path_def temporary_path_def demo_track_parts demo_final_def
        demo_temporary_def cpython_excerpt_def ascii_def DOT_def)

theorem skip_metadata_finalizes_witness:
  "fst (download_track cpython_excerpt rejecting_world bare_config (demo_track 1 7) None False
          False 0 empty_state) = Returned
   \<and> files (snd (download_track cpython_excerpt rejecting_world bare_config (demo_track 1 7)
                   None False False 0 empty_state)) demo_final = Some [1, 2, 3]
   \<and> trace (snd (download_track cpython_excerpt rejecting_world bare_config (demo_track 1 7)
                   None False False 0 empty_state))
       = [GetMedia (demo_track 1 7), Makedirs (ascii ''out''),
          HttpGet (ascii ''https://cdn/1''), OpenWrite demo_temporary,
          Rename demo_temporary demo_final]"
proof -
  let ?run = "download_track cpython_excerpt rejecting_world bare_config (demo_track 1 7) None
                False False 0 empty_state"
  have skip: "skip_metadata bare_config"
    by (simp add: bare_config_def)
  have path: "get_track_path cpython_excerpt rejecting_world bare_config (demo_track 1 7) None
                False False empty_state = (Inr (ascii ''out/Song''), empty_state)"
    by (rule demo_path) (simp_all add: bare_config_def)
  have absent: "\<not> isfile empty_state (final_path (ascii ''out/Song'') (demo_track 1 7))"
    by (simp add: isfile_def empty_state_def)
  have world: "get_media rejecting_world st t = Inr plain_media"
    "http_stream rejecting_world st u = Inr demo_stream"
    "os_error rejecting_world st call = None" for st t u call
    by (simp_all add: rejecting_world_def listing_world_def demo_world_def)
  have stream: "stream_error demo_stream = None"
    "quiet bare_config \<or> (\<exists>n. length_header demo_stream = Length n)"
    by (simp_all add: demo_stream_def)
  have plain: "decryptor plain_media = None"
    by (simp add: plain_media_def)
  note acquired = acquire_media_ok [OF world(1)]
  note streamed = stream_payload_ok [OF demo_final_parts(2) world(3) world(2) world(3) stream]
  note decrypted = decrypt_none [OF plain]
  from skip_metadata_finalizes [where indent = 0, OF skip path absent,
      unfolded demo_final_paths, OF acquired streamed decrypted world(3), THEN conjunct1]
  have "fst ?run = Returned"
    by auto
  moreover have "files (snd ?run) demo_final = Some [1, 2, 3]"
    by code_simp
  moreover have "trace (snd ?run)
       = [GetMedia (demo_track 1 7), Makedirs (ascii ''out''),
          HttpGet (ascii ''https://cdn/1''), OpenWrite demo_temporary,
          Rename demo_temporary demo_final]"
    by code_simp
  ultimately show ?thesis by (intro conjI)
qed

subsection \<open>An invalid file\<close>

lemma download_tracks_next:
  assumes "download_track K W cfg t (Some tracks) include_artist True (indent + 1)
             (log K cfg (progress_message t index (length tracks)) indent st) = (Returned, s)"
  shows "download_tracks K W cfg include_artist indent tracks index (t # rest) st
           = download_tracks K W cfg include_artist indent tracks (index + 1) rest s"
  using assms by simp

text \<open>
  Claim C6: when the embedder raises \<open>InvalidFileError\<close>, \<open>download_track\<close> logs the skip,
  removes the temporary file and returns normally. Nothing is requested again: the log
  line and the removal are the only calls after the embedder's. Afterwards no file is at
  the temporary or the final path and every other file is as it was, and a traversal goes
  on with the next track.
\<close>

theorem invalid_file_skip:
  assumes meta: "\<not> skip_metadata cfg"
    and path: "get_track_path K W cfg t siblings include_artist include_album st = (Inr p, st')"
    and absent: "\<not> isfile st (final_path p t)"
    and acquire: "acquire_media K W cfg t (final_path p t) indent st' = (Inr m, s1)"
    and stream: "stream_payload W cfg (temporary_path K p t) (final_path p t) m s1 = (None, s2)"
    and decrypt: "decrypt K cfg (temporary_path K p t) m indent s2 = (None, s3)"
    and invalid: "resolve_metadata K W cfg t (temporary_path K p t) indent s3
                    = (Some InvalidFileError, s4)"
    and remove: "os_error W (log K cfg (invalid_file_message (final_path p t)) indent s4)
                   (Remove (temporary_path K p t)) = None"
    and run: "download_track K W cfg t siblings include_artist include_album indent st
                = (out, st_end)"
  shows "out = Returned
         \<and> st_end = record_call (Remove (temporary_path K p t))
                      ((log K cfg (invalid_file_message (final_path p t)) indent s4)
                         \<lparr>files := (files s4)(temporary_path K p t := None)\<rparr>)
         \<and> calls_since s4 st_end
             = (if quiet cfg then []
                else [Print (concat (replicate indent (INDENT K))
                               @ invalid_file_message (final_path p t))])
               @ [Remove (temporary_path K p t)]
         \<and> files st_end = (files st)(temporary_path K p t := None)
         \<and> \<not> isfile st_end (final_path p t)
         \<and> (\<forall>outer tracks index rest before.
               siblings = Some tracks \<and> include_album \<and> indent = outer + 1
               \<and> st = log K cfg (progress_message t index (length tracks)) outer before
               \<longrightarrow> download_tracks K W cfg include_artist outer tracks index (t # rest) before
                   = download_tracks K W cfg include_artist outer tracks (index + 1) rest
                       st_end)"
proof -
  let ?temp = "temporary_path K p t" and ?final = "final_path p t"
  let ?logged = "log K cfg (invalid_file_message ?final) indent s4"
  let ?end = "record_call (Remove ?temp) (?logged\<lparr>files := (files s4)(?temp := None)\<rparr>)"
  from decrypt_success [OF decrypt stream_payload_success [OF stream]]
  have "isfile s3 ?temp" .
  from resolve_metadata_keeps [OF invalid this]
  obtain b where b: "files ?logged ?temp = Some b" by (auto simp: isfile_def)
  have "download_track K W cfg t siblings include_artist include_album indent st
          = transfer K W cfg t ?temp ?final indent m s1"
    by (rule download_track_transfer [OF path absent acquire])
  also have "\<dots> = finish (os_remove W ?temp ?logged)"
    using meta stream decrypt invalid by (simp add: transfer_def finalize_def)
  also have "\<dots> = (Returned, ?end)"
    unfolding os_remove_ok [OF b remove] by (simp add: finish_def)
  finally have "(out, st_end) = (Returned, ?end)" using run by simp
  then have out: "out = Returned" and st_end: "st_end = ?end" by simp_all
  have calls: "calls_since s4 st_end
             = (if quiet cfg then []
                else [Print (concat (replicate indent (INDENT K)) @ invalid_file_message ?final)])
               @ [Remove ?temp]"
    unfolding st_end by (rule calls_since_append) (simp add: trace_log)
  have same: "files s4 q = files st q" if q: "q \<noteq> ?temp" for q
  proof -
    from get_track_path_files [OF path] acquire_media_files [OF acquire]
    have "files s1 q = files st q" by simp
    moreover from files_stream_payload_other [OF q, of W cfg ?final m s1] stream
    have "files s2 q = files s1 q" by simp
    moreover from decrypt_files_other [OF q, of K cfg m indent s2] decrypt
    have "files s3 q = files s2 q" by simp
    moreover from resolve_metadata_files_other [OF q, of K W cfg t indent s3] invalid
    have "files s4 q = files s3 q" by simp
    ultimately show ?thesis by simp
  qed
  have files: "files st_end = (files st)(?temp := None)"
    unfolding st_end using same by (auto simp: fun_eq_iff)
  have final: "\<not> isfile st_end ?final"
    using files absent temporary_ne_final [of K p t] by (simp add: isfile_def)
  have onward: "download_tracks K W cfg include_artist outer tracks index (t # rest) before
                = download_tracks K W cfg include_artist outer tracks (index + 1) rest st_end"
    if "siblings = Some tracks \<and> include_album \<and> indent = outer + 1
        \<and> st = log K cfg (progress_message t index (length tracks)) outer before"
    for outer tracks index rest before
    using that run out by (intro download_tracks_next) simp
  from onward have "\<forall>outer tracks index rest before.
               siblings = Some tracks \<and> include_album \<and> indent = outer + 1
               \<and> st = log K cfg (progress_message t index (length tracks)) outer before
               \<longrightarrow> download_tracks K W cfg include_artist outer tracks index (t # rest) before
                   = download_tracks K W cfg include_artist outer tracks (index + 1) rest
                       st_end"
    by blast
  with out st_end calls files final show ?thesis
    by (intro conjI)
qed

theorem invalid_file_skip_witness:
  "fst (download_track cpython_excerpt rejecting_world plain_config (demo_track 1 7) None False
          False 0 empty_state) = Returned
   \<and> files (snd (download_track cpython_excerpt rejecting_world plain_config (demo_track 1 7)
                   None False False 0 empty_state)) = (files empty_state)(demo_temporary := None)
   \<and> trace (snd (download_track cpython_excerpt rejecting_world plain_config (demo_track 1 7)
                   None False False 0 empty_state))
       = [GetMedia (demo_track 1 7), Makedirs (ascii ''out''),
          HttpGet (ascii ''https://cdn/1''), OpenWrite demo_temporary,
          Print (ascii ''Resolving metadata...''), Embed demo_temporary,
          Print (ascii ''Skipping Song.mp4; received invalid file''),
          Remove demo_temporary]"
proof -
  let ?run = "download_track cpython_excerpt rejecting_world plain_config (demo_track 1 7) None
                False False 0 empty_state"
  let ?s1 = "record_call (GetMedia (demo_track 1 7)) empty_state"
  let ?s2 = "write_chunks demo_temporary (chunks demo_stream)
               (snd (open_wb rejecting_world demo_temporary
                       (record_call (HttpGet (media_url plain_media))
                          (record_call (Makedirs (dirname demo_final)) ?s1))))"
  let ?meta = "resolve_metadata cpython_excerpt rejecting_world plain_config (demo_track 1 7)
                 demo_temporary 0 ?s2"
  have meta: "\<not> skip_metadata plain_config"
    by (simp add: plain_config_def)
  have path: "get_track_path cpython_excerpt rejecting_world plain_config (demo_track 1 7) None
                False False empty_state = (Inr (ascii ''out/Song''), empty_state)"
    by (rule demo_path) (simp_all add: plain_config_def)
  have absent: "\<not> isfile empty_state demo_final"
    by (simp add: isfile_def empty_state_def)
  have world: "get_media rejecting_world st t = Inr plain_media"
    "http_stream rejecting_world st u = Inr demo_stream"
    "os_error rejecting_world st call = None" for st t u call
    by (simp_all add: rejecting_world_def listing_world_def demo_world_def)
  have stream: "stream_error demo_stream = None"
    "quiet plain_config \<or> (\<exists>n. length_header demo_stream = Length n)"
    by (simp_all add: demo_stream_def)
  have plain: "decryptor plain_media = None"
    by (simp add: plain_media_def)
  have acquired: "acquire_media cpython_excerpt rejecting_world plain_config (demo_track 1 7)
                    demo_final 0 empty_state = (Inr plain_media, ?s1)"
    by (rule acquire_media_ok [OF world(1)])
  have streamed: "stream_payload rejecting_world plain_config demo_temporary demo_final
                    plain_media ?s1 = (None, ?s2)"
    by (rule stream_payload_ok [OF demo_final_parts(2) world(3) world(2) world(3) stream])
  have decrypted: "decrypt cpython_excerpt plain_config demo_temporary plain_media 0 ?s2
                     = (None, ?s2)"
    by (rule decrypt_none [OF plain])
  have there: "isfile ?s2 demo_temporary"
    by (rule stream_payload_success [OF streamed])
  have embedder: "embedder rejecting_world (extension (demo_track 1 7)) = Some (\<lambda>cfg t c. reject)"
    by (simp add: embedder_def demo_track_parts rejecting_world_def)
  have "fst ?meta = Some InvalidFileError"
    unfolding resolve_metadata_embed [OF demo_track_parts(2) embedder there]
    using there by (subst apply_transform_present) (simp_all add: reject_def isfile_def)
  then have invalid: "?meta = (Some InvalidFileError, snd ?meta)"
    by (rule pair_fstI)
  have run: "?run = (fst ?run, snd ?run)"
    by simp
  note skip = invalid_file_skip [where indent = 0, OF meta path, unfolded demo_final_paths,
      OF absent acquired streamed decrypted invalid world(3) run]
  have "trace (snd ?run)
       = [GetMedia (demo_track 1 7), Makedirs (ascii ''out''),
          HttpGet (ascii ''https://cdn/1''), OpenWrite demo_temporary,
          Print (ascii ''Resolving metadata...''), Embed demo_temporary,
          Print (ascii ''Skipping Song.mp4; received invalid file''),
          Remove demo_temporary]"
    by code_simp
  with skip [THEN conjunct1] skip [THEN conjunct2, THEN conjunct2, THEN conjunct2, THEN conjunct1]
  show ?thesis by (intro conjI)
qed

subsection \<open>Calls of a whole run\<close>

lemma continues_finalize:
  assumes "\<And>m. P (Print m)" "\<And>u. P (HttpGet u)" "\<And>p. P (Embed p)" "\<And>p. P (Remove p)"
    "\<And>a b. P (Rename a b)"
  shows "continues P st (snd (finalize K W cfg t temporary final indent st))"
proof -
  obtain out st' where run: "finalize K W cfg t temporary final indent st = (out, st')"
    by (cases "finalize K W cfg t temporary final indent st")
  note meta = continues_resolve_metadata [of P st K W cfg t temporary indent, OF assms(1-3)]
  from run have "continues P st st'"
  proof (cases rule: finalize_cases)
    case skipped
    from finish_rename [OF skipped(2)] have "trace st' = trace st @ [Rename temporary final]" ..
    then show ?thesis by (rule continuesI) (simp add: assms)
  next
    case (embedded s)
    from finish_rename [OF embedded(3)] have "trace st' = trace s @ [Rename temporary final]" ..
    then have "continues P s st'" by (rule continuesI) (simp add: assms)
    with meta embedded(2) show ?thesis by (auto intro: continues_trans)
  next
    case (invalid s)
    from finish_remove [OF invalid(3)]
    have "trace st' = trace (log K cfg (invalid_file_message final) indent s) @ [Remove temporary]" ..
    then have "trace st' = trace s @ ((if quiet cfg then []
                   else [Print (concat (replicate indent (INDENT K)) @ invalid_file_message final)])
                 @ [Remove temporary])"
      by (simp add: trace_log)
    then have "continues P s st'" by (rule continuesI) (simp add: assms)
    with meta invalid(2) show ?thesis by (auto intro: continues_trans)
  next
    case (failed e)
    with meta show ?thesis by simp
  qed
  with run show ?thesis by simp
qed

lemma continues_transfer:
  assumes "\<And>m. P (Print m)" "\<And>u. P (HttpGet u)" "\<And>p. P (Embed p)" "\<And>p. P (Remove p)"
    "\<And>a b. P (Rename a b)" "\<And>p. P (Makedirs p)" "\<And>p. P (OpenWrite p)" "\<And>p. P (Decrypt p)"
  shows "continues P st (snd (transfer K W cfg t temporary final indent m st))"
proof -
  obtain r2 s2 where stream: "stream_payload W cfg temporary final m st = (r2, s2)"
    by (cases "stream_payload W cfg temporary final m st")
  obtain r3 s3 where decrypt: "decrypt K cfg temporary m indent s2 = (r3, s3)"
    by (cases "decrypt K cfg temporary m indent s2")
  from continues_stream_payload [of P st W cfg temporary final m] stream assms
  have c2: "continues P st s2" by simp
  from continues_decrypt [of P s2 K cfg temporary m indent] decrypt assms
  have c3: "continues P s2 s3" by simp
  note c4 = continues_finalize [of P s3 K W cfg t temporary final indent, OF assms(1-5)]
  have "snd (transfer K W cfg t temporary final indent m st) = s2
        \<or> snd (transfer K W cfg t temporary final indent m st) = s3
        \<or> snd (transfer K W cfg t temporary final indent m st)
             = snd (finalize K W cfg t temporary final indent s3)"
    using stream decrypt by (simp add: transfer_def split: option.splits)
  with c2 continues_trans [OF c2 c3] continues_trans [OF continues_trans [OF c2 c3] c4]
  show ?thesis by auto
qed

lemma filter_continues:
  assumes "continues P a b" and "\<And>e. P e \<Longrightarrow> \<not> Q e"
  shows "filter Q (calls_since a b) = []"
  using assms unfolding continues_def by (auto simp: list_all_iff filter_empty_conv)

lemma not_media_call:
  "\<not> media_call (Print m)" "\<not> media_call (HttpGet u)" "\<not> media_call (Embed p)"
  "\<not> media_call (Remove p)" "\<not> media_call (Rename a b)" "\<not> media_call (Makedirs p)"
  "\<not> media_call (OpenWrite p)" "\<not> media_call (Decrypt p)" "\<not> media_call (GetAlbumTracks l)"
  by simp_all

lemma request_media_calls:
  "filter media_call (calls_since st (snd (request_media K W cfg t indent st)))
     \<in> {[GetMedia t], [GetMedia t, Authenticate], [GetMedia t, Authenticate, GetMedia t]}"
  using request_media_cases [of K W cfg t indent st]
  by (elim disjE) (simp_all add: calls_since_def trace_before_retry)

lemma acquire_media_calls:
  "filter media_call (calls_since st (snd (acquire_media K W cfg t final indent st)))
     \<in> {[GetMedia t], [GetMedia t, Authenticate], [GetMedia t, Authenticate, GetMedia t]}"
proof -
  let ?r = "snd (request_media K W cfg t indent st)"
  have r: "continues (\<lambda>e. True) st ?r"
    by (rule continues_request_media) simp_all
  from acquire_media_state [of K W cfg t final indent st] show ?thesis
  proof
    assume "snd (acquire_media K W cfg t final indent st) = ?r"
    with request_media_calls [of st K W cfg t indent] show ?thesis by simp
  next
    assume a: "snd (acquire_media K W cfg t final indent st)
                 = log K cfg (not_available_message final) indent ?r"
    have l: "continues (\<lambda>e. \<not> media_call e) ?r (log K cfg (not_available_message final) indent ?r)"
      by (rule continues_log) simp
    from calls_since_trans [OF r l] filter_continues [OF l]
      request_media_calls [of st K W cfg t indent] a
    show ?thesis by simp
  qed
qed

lemma download_track_media_calls:
  "filter media_call
     (calls_since st
        (snd (download_track K W cfg t siblings include_artist include_album indent st)))
     \<in> {[], [GetMedia t], [GetMedia t, Authenticate], [GetMedia t, Authenticate, GetMedia t]}"
proof -
  let ?N = "\<lambda>e. \<not> media_call e"
  obtain r st' where path:
    "get_track_path K W cfg t siblings include_artist include_album st = (r, st')"
    by (cases "get_track_path K W cfg t siblings include_artist include_album st")
  from continues_get_track_path [of ?N st K W cfg t siblings include_artist include_album] path
  have c1: "continues ?N st st'" by simp
  show ?thesis
  proof (cases r)
    case (Inl e)
    with path have "snd (download_track K W cfg t siblings include_artist include_album indent st)
                      = st'"
      by (simp add: download_track_def)
    with filter_continues [OF c1] show ?thesis by simp
  next
    case (Inr p)
    note unfold = download_track_unfold [OF path [unfolded Inr], of indent]
    show ?thesis
    proof (cases "isfile st' (final_path p t)")
      case True
      have "continues ?N st' (log K cfg (already_exists_message (final_path p t)) indent st')"
        by (rule continues_log) simp
      from filter_continues [OF continues_trans [OF c1 this]] unfold True show ?thesis by simp
    next
      case False
      obtain a s1 where acq: "acquire_media K W cfg t (final_path p t) indent st' = (a, s1)"
        by (cases "acquire_media K W cfg t (final_path p t) indent st'")
      have c2: "continues (\<lambda>e. True) st' s1"
        using continues_acquire_media [of "\<lambda>e. True" st' K W cfg t "final_path p t" indent] acq
        by simp
      from acquire_media_calls [of st' K W cfg t "final_path p t" indent] acq
      have m: "filter media_call (calls_since st' s1)
                \<in> {[GetMedia t], [GetMedia t, Authenticate], [GetMedia t, Authenticate, GetMedia t]}"
        by simp
      have s1: "filter media_call (calls_since st s1) = filter media_call (calls_since st' s1)"
        using calls_since_trans [OF c1 c2] filter_continues [OF c1] by simp
      show ?thesis
      proof (cases a)
        case (Inl ended)
        with unfold False acq
        have "snd (download_track K W cfg t siblings include_artist include_album indent st) = s1"
          by simp
        with s1 m show ?thesis by auto
      next
        case (Inr md)
        let ?end = "snd (transfer K W cfg t (temporary_path K p t) (final_path p t) indent md s1)"
        from Inr unfold False acq
        have e: "snd (download_track K W cfg t siblings include_artist include_album indent st)
                   = ?end"
          by simp
        have c3: "continues ?N s1 ?end"
          by (rule continues_transfer) simp_all
        have c01: "continues (\<lambda>e. True) st s1"
          by (rule continues_trans [OF continues_weaken [OF c1] c2]) simp
        from calls_since_trans [OF c01 c3] filter_continues [OF c3] s1 m e
        show ?thesis by auto
      qed
    qed
  qed
qed

subsection \<open>Too many requests\<close>

lemma download_track_ended:
  assumes "get_track_path K W cfg t siblings include_artist include_album st = (Inr p, st')"
    and "\<not> isfile st (final_path p t)"
    and "acquire_media K W cfg t (final_path p t) indent st' = (Inl ended, s1)"
  shows "download_track K W cfg t siblings include_artist include_album indent st = (ended, s1)"
proof -
  from get_track_path_files [OF assms(1)] assms(2)
  have "\<not> isfile st' (final_path p t)" by (simp add: isfile_def)
  with download_track_unfold [OF assms(1), of indent] assms(3) show ?thesis by simp
qed

lemma request_media_retry:
  assumes "get_media W st t = Inl (HTTPError r1)" and "status_code r1 = 429"
    and "authenticate W (before_authenticate K cfg t indent st) = None"
  shows "request_media K W cfg t indent st
           = (get_media W (before_retry K cfg t indent st) t,
              record_call (GetMedia t) (before_retry K cfg t indent st))"
  using assms by (simp add: request_media_def)

lemma request_media_first:
  assumes "get_media W st t = Inl (HTTPError r)" and "status_code r \<noteq> 429"
  shows "request_media K W cfg t indent st = (Inl (HTTPError r), record_call (GetMedia t) st)"
  using assms by (simp add: request_media_def)

lemma acquire_media_failed:
  assumes "request_media K W cfg t indent st = (Inl (HTTPError r), s1)"
  shows "acquire_media K W cfg t final indent st
           = (if not_entitled r
              then (Inl Returned, log K cfg (not_available_message final) indent s1)
              else (Inl (Raised (case sub_status r of Inl e \<Rightarrow> e | Inr sub \<Rightarrow> HTTPError r)),
                    s1))"
  using assms by (auto simp: acquire_media_def not_entitled_def split: sum.splits)

text \<open>
  Claim C3: when the first media request is answered with 429, \<open>download_track\<close> logs,
  authenticates once and requests once more; when that request is answered with 429
  again the run raises, having made exactly these three client calls. No run of
  \<open>download_track\<close>, whatever the world answers, makes more than one authentication and
  two media requests.
\<close>

theorem rate_limit_single_retry:
  assumes path: "get_track_path K W cfg t siblings include_artist include_album st = (Inr p, st')"
    and absent: "\<not> isfile st (final_path p t)"
    and first: "get_media W st' t = Inl (HTTPError r1)" "status_code r1 = 429"
    and auth: "authenticate W (before_authenticate K cfg t indent st') = None"
    and second: "get_media W (before_retry K cfg t indent st') t = Inl (HTTPError r2)"
      "status_code r2 = 429"
    and run: "download_track K W cfg t siblings include_artist include_album indent st
                = (out, st_end)"
  shows "out = Raised (case sub_status r2 of Inl e \<Rightarrow> e | Inr sub \<Rightarrow> HTTPError r2)
         \<and> st_end = record_call (GetMedia t) (before_retry K cfg t indent st')
         \<and> calls_since st' st_end
             = GetMedia t
               # (if quiet cfg then []
                  else [Print (concat (replicate indent (INDENT K)) @ too_many_requests_message)])
               @ [Authenticate, GetMedia t]
         \<and> files st_end = files st
         \<and> (\<forall>V u sibs ia ial i s.
               filter media_call
                 (calls_since s (snd (download_track K V cfg u sibs ia ial i s)))
               \<in> {[], [GetMedia u], [GetMedia u, Authenticate],
                   [GetMedia u, Authenticate, GetMedia u]})"
proof -
  let ?end = "record_call (GetMedia t) (before_retry K cfg t indent st')"
  have request: "request_media K W cfg t indent st' = (Inl (HTTPError r2), ?end)"
    unfolding request_media_retry [OF first auth] second ..
  have "\<not> not_entitled r2"
    using second(2) by (simp add: not_entitled_def)
  with acquire_media_failed [OF request, of "final_path p t"]
  have "acquire_media K W cfg t (final_path p t) indent st'
          = (Inl (Raised (case sub_status r2 of Inl e \<Rightarrow> e | Inr sub \<Rightarrow> HTTPError r2)), ?end)"
    by simp
  from download_track_ended [OF path absent this] run
  have out: "out = Raised (case sub_status r2 of Inl e \<Rightarrow> e | Inr sub \<Rightarrow> HTTPError r2)"
    and st_end: "st_end = ?end" by simp_all
  have calls: "calls_since st' st_end
             = GetMedia t
               # (if quiet cfg then []
                  else [Print (concat (replicate indent (INDENT K)) @ too_many_requests_message)])
               @ [Authenticate, GetMedia t]"
    unfolding st_end by (rule calls_since_append) (simp add: trace_before_retry)
  have files: "files st_end = files st"
    unfolding st_end using get_track_path_files [OF path] by simp
  have bound: "\<forall>V u sibs ia ial i s.
               filter media_call
                 (calls_since s (snd (download_track K V cfg u sibs ia ial i s)))
               \<in> {[], [GetMedia u], [GetMedia u, Authenticate],
                   [GetMedia u, Authenticate, GetMedia u]}"
    using download_track_media_calls by blast
  from out st_end calls files bound show ?thesis by (intro conjI)
qed

theorem rate_limit_single_retry_witness:
  "fst (download_track cpython_excerpt (refusing_world throttled_response) plain_config
          (demo_track 1 7) None False False 0 empty_state)
     = Raised (HTTPError throttled_response)
   \<and> trace (snd (download_track cpython_excerpt (refusing_world throttled_response)
                   plain_config (demo_track 1 7) None False False 0 empty_state))
       = [GetMedia (demo_track 1 7),
          Print (ascii ''Too many requests, logging out and back in...''),
          Authenticate, GetMedia (demo_track 1 7)]"
proof -
  let ?W = "refusing_world throttled_response"
  let ?run = "download_track cpython_excerpt ?W plain_config (demo_track 1 7) None False False 0
                empty_state"
  have path: "get_track_path cpython_excerpt ?W plain_config (demo_track 1 7) None
                False False empty_state = (Inr (ascii ''out/Song''), empty_state)"
    by (rule demo_path) (simp_all add: plain_config_def)
  have absent: "\<not> isfile empty_state (final_path (ascii ''out/Song'') (demo_track 1 7))"
    by (simp add: isfile_def empty_state_def)
  have world: "get_media ?W st t = Inl (HTTPError throttled_response)"
    "authenticate ?W st = None" for st t
    by (simp_all add: refusing_world_def demo_world_def)
  have limited: "status_code throttled_response = 429"
    by (simp add: throttled_response_def)
  have sub: "sub_status throttled_response = Inr None"
    by (simp add: sub_status_def throttled_response_def)
  have run: "?run = (fst ?run, snd ?run)"
    by simp
  note retry = rate_limit_single_retry [where indent = 0,
      OF path absent world(1) limited world(2) world(1) limited run]
  have "trace (snd ?run)
       = [GetMedia (demo_track 1 7),
          Print (ascii ''Too many requests, logging out and back in...''),
          Authenticate, GetMedia (demo_track 1 7)]"
    by code_simp
  with retry [THEN conjunct1] show ?thesis
    unfolding sub by simp
qed

subsection \<open>A track the account is not entitled to\<close>

text \<open>
  Claim C4: let the media request end with an HTTP error, raised by the first request
  with a status other than 429 or raised by the one retry after a 429. If the error is
  401 with sub-status 4005, \<open>download_track\<close> logs the skip and returns normally, no file
  has changed, and a traversal goes on with the next track. With any other status and
  sub-status the run raises and no file has changed.
\<close>

theorem not_entitled_skip:
  assumes path: "get_track_path K W cfg t siblings include_artist include_album st = (Inr p, st')"
    and absent: "\<not> isfile st (final_path p t)"
    and failure:
      "get_media W st' t = Inl (HTTPError r) \<and> status_code r \<noteq> 429
         \<and> s1 = record_call (GetMedia t) st'
       \<or> (\<exists>r1. get_media W st' t = Inl (HTTPError r1) \<and> status_code r1 = 429
              \<and> authenticate W (before_authenticate K cfg t indent st') = None
              \<and> get_media W (before_retry K cfg t indent st') t = Inl (HTTPError r)
              \<and> s1 = record_call (GetMedia t) (before_retry K cfg t indent st'))"
    and run: "download_track K W cfg t siblings include_artist include_album indent st
                = (out, st_end)"
  shows "(status_code r = 401 \<and> sub_status r = Inr (Some 4005) \<longrightarrow>
            out = Returned
            \<and> st_end = log K cfg (not_available_message (final_path p t)) indent s1
            \<and> (\<forall>outer tracks index rest before.
                  siblings = Some tracks \<and> include_album \<and> indent = outer + 1
                  \<and> st = log K cfg (progress_message t index (length tracks)) outer before
                  \<longrightarrow> download_tracks K W cfg include_artist outer tracks index (t # rest)
                        before
                      = download_tracks K W cfg include_artist outer tracks (index + 1) rest
                          st_end))
         \<and> (\<not> (status_code r = 401 \<and> sub_status r = Inr (Some 4005)) \<longrightarrow>
               out = Raised (case sub_status r of Inl e \<Rightarrow> e | Inr sub \<Rightarrow> HTTPError r)
               \<and> st_end = s1)
         \<and> files st_end = files st"
proof -
  let ?final = "final_path p t"
  from failure have request: "request_media K W cfg t indent st' = (Inl (HTTPError r), s1)"
  proof
    assume "get_media W st' t = Inl (HTTPError r) \<and> status_code r \<noteq> 429
              \<and> s1 = record_call (GetMedia t) st'"
    then show ?thesis by (simp add: request_media_first)
  next
    assume "\<exists>r1. get_media W st' t = Inl (HTTPError r1) \<and> status_code r1 = 429
              \<and> authenticate W (before_authenticate K cfg t indent st') = None
              \<and> get_media W (before_retry K cfg t indent st') t = Inl (HTTPError r)
              \<and> s1 = record_call (GetMedia t) (before_retry K cfg t indent st')"
    then obtain r1 where "get_media W st' t = Inl (HTTPError r1)" "status_code r1 = 429"
      "authenticate W (before_authenticate K cfg t indent st') = None"
      and r: "get_media W (before_retry K cfg t indent st') t = Inl (HTTPError r)"
        "s1 = record_call (GetMedia t) (before_retry K cfg t indent st')"
      by blast
    from request_media_retry [OF this(1-3)] r show ?thesis by simp
  qed
  from request have "snd (request_media K W cfg t indent st') = s1" by simp
  with files_request_media [of K W cfg t indent st'] get_track_path_files [OF path]
  have f1: "files s1 = files st" by simp
  note acquired = acquire_media_failed [OF request, of ?final]
  show ?thesis
  proof (cases "not_entitled r")
    case True
    with acquired
    have "acquire_media K W cfg t ?final indent st'
            = (Inl Returned, log K cfg (not_available_message ?final) indent s1)"
      by simp
    from download_track_ended [OF path absent this] run
    have out: "out = Returned"
      and st_end: "st_end = log K cfg (not_available_message ?final) indent s1"
      by simp_all
    have onward: "download_tracks K W cfg include_artist outer tracks index (t # rest) before
                    = download_tracks K W cfg include_artist outer tracks (index + 1) rest
                        st_end"
      if "siblings = Some tracks \<and> include_album \<and> indent = outer + 1
          \<and> st = log K cfg (progress_message t index (length tracks)) outer before"
      for outer tracks index rest before
      using that run out by (intro download_tracks_next) simp
    from True out st_end f1 onward show ?thesis
      by (simp add: not_entitled_def)
  next
    case False
    with acquired
    have "acquire_media K W cfg t ?final indent st'
            = (Inl (Raised (case sub_status r of Inl e \<Rightarrow> e | Inr sub \<Rightarrow> HTTPError r)), s1)"
      by simp
    from download_track_ended [OF path absent this] run
    have "out = Raised (case sub_status r of Inl e \<Rightarrow> e | Inr sub \<Rightarrow> HTTPError r)"
      and "st_end = s1"
      by simp_all
    with False f1 show ?thesis
      by (simp add: not_entitled_def)
  qed
qed

theorem not_entitled_skip_witness:
  "fst (download_track cpython_excerpt (refusing_world not_entitled_response) plain_config
          (demo_track 1 7) None False False 0 empty_state) = Returned
   \<and> trace (snd (download_track cpython_excerpt (refusing_world not_entitled_response)
                   plain_config (demo_track 1 7) None False False 0 empty_state))
       = [GetMedia (demo_track 1 7),
          Print (ascii ''Skipping download of Song.mp4; track is not available.'')]
   \<and> files (snd (download_track cpython_excerpt (refusing_world not_entitled_response)
                   plain_config (demo_track 1 7) None False False 0 empty_state))
       = files empty_state
   \<and> fst (download_track cpython_excerpt (refusing_world forbidden_response) plain_config
            (demo_track 1 7) None False False 0 empty_state)
       = Raised (HTTPError forbidden_response)"
proof -
  let ?skip = "download_track cpython_excerpt (refusing_world not_entitled_response)
                 plain_config (demo_track 1 7) None False False 0 empty_state"
  let ?fatal = "download_track cpython_excerpt (refusing_world forbidden_response)
                  plain_config (demo_track 1 7) None False False 0 empty_state"
  have path: "get_track_path cpython_excerpt (refusing_world r) plain_config (demo_track 1 7)
                None False False empty_state = (Inr (ascii ''out/Song''), empty_state)" for r
    by (rule demo_path) (simp_all add: plain_config_def)
  have absent: "\<not> isfile empty_state (final_path (ascii ''out/Song'') (demo_track 1 7))"
    by (simp add: isfile_def empty_state_def)
  have world: "get_media (refusing_world r) st t = Inl (HTTPError r)" for r st t
    by (simp add: refusing_world_def demo_world_def)
  have skipped: "get_media (refusing_world not_entitled_response) empty_state (demo_track 1 7)
                   = Inl (HTTPError not_entitled_response)
                 \<and> status_code not_entitled_response \<noteq> 429
                 \<and> record_call (GetMedia (demo_track 1 7)) empty_state
                     = record_call (GetMedia (demo_track 1 7)) empty_state
                 \<or> (\<exists>r1. get_media (refusing_world not_entitled_response) empty_state
                            (demo_track 1 7) = Inl (HTTPError r1) \<and> status_code r1 = 429
                      \<and> authenticate (refusing_world not_entitled_response)
                          (before_authenticate cpython_excerpt plain_config (demo_track 1 7) 0
                             empty_state) = None
                      \<and> get_media (refusing_world not_entitled_response)
                          (before_retry cpython_excerpt plain_config (demo_track 1 7) 0
                             empty_state) (demo_track 1 7)
                          = Inl (HTTPError not_entitled_response)
                      \<and> record_call (GetMedia (demo_track 1 7)) empty_state
                          = record_call (GetMedia (demo_track 1 7))
                              (before_retry cpython_excerpt plain_config (demo_track 1 7) 0
                                 empty_state))"
    by (simp add: world not_entitled_response_def)
  have fatal: "get_media (refusing_world forbidden_response) empty_state (demo_track 1 7)
                   = Inl (HTTPError forbidden_response)
                 \<and> status_code forbidden_response \<noteq> 429
                 \<and> record_call (GetMedia (demo_track 1 7)) empty_state
                     = record_call (GetMedia (demo_track 1 7)) empty_state
                 \<or> (\<exists>r1. get_media (refusing_world forbidden_response) empty_state
                            (demo_track 1 7) = Inl (HTTPError r1) \<and> status_code r1 = 429
                      \<and> authenticate (refusing_world forbidden_response)
                          (before_authenticate cpython_excerpt plain_config (demo_track 1 7) 0
                             empty_state) = None
                      \<and> get_media (refusing_world forbidden_response)
                          (before_retry cpython_excerpt plain_config (demo_track 1 7) 0
                             empty_state) (demo_track 1 7)
                          = Inl (HTTPError forbidden_response)
                      \<and> record_call (GetMedia (demo_track 1 7)) empty_state
                          = record_call (GetMedia (demo_track 1 7))
                              (before_retry cpython_excerpt plain_config (demo_track 1 7) 0
                                 empty_state))"
    by (simp add: world forbidden_response_def)
  have entitled: "status_code not_entitled_response = 401
                  \<and> sub_status not_entitled_response = Inr (Some 4005)"
    by (simp add: not_entitled_response_def sub_status_def)
  have forbidden: "\<not> (status_code forbidden_response = 401
                       \<and> sub_status forbidden_response = Inr (Some 4005))"
    "sub_status forbidden_response = Inr None"
    by (simp_all add: forbidden_response_def sub_status_def)
  have runs: "?skip = (fst ?skip, snd ?skip)" "?fatal = (fst ?fatal, snd ?fatal)"
    by simp_all
  note a = not_entitled_skip [where indent = 0, OF path absent skipped runs(1)]
  note b = not_entitled_skip [where indent = 0, OF path absent fatal runs(2)]
  have "trace (snd ?skip)
       = [GetMedia (demo_track 1 7),
          Print (ascii ''Skipping download of Song.mp4; track is not available.'')]"
    by code_simp
  with a [THEN conjunct1, THEN mp, OF entitled, THEN conjunct1]
    a [THEN conjunct2, THEN conjunct2]
    b [THEN conjunct2, THEN conjunct1, THEN mp, OF forbidden(1), THEN conjunct1]
  show ?thesis
    unfolding forbidden(2) by simp
qed

subsection \<open>download_album\<close>


lemma not_listing_call:
  "\<not> listing_call (Print m)" "\<not> listing_call (HttpGet u)" "\<not> listing_call (Embed p)"
  "\<not> listing_call (Remove p)" "\<not> listing_call (Rename a b)" "\<not> listing_call (Makedirs p)"
  "\<not> listing_call (OpenWrite p)" "\<not> listing_call (Decrypt p)" "\<not> listing_call (GetMedia t)"
  "\<not> listing_call Authenticate"
  by simp_all







end
